theory Spec2Isabelle
  imports Main "HOL-Library.Word"
begin

unbundle bit_operations_syntax

section \<open>The heap allocator of mm.c\<close>

text \<open>
  The allocator of \<^verbatim>\<open>src/mm.c\<close> keeps all of its metadata inside the heap bytes it manages:
  every block starts with a header word and ends with a footer word (size and allocated bit),
  and a free block holds the two links of the circular free list in its first two payload
  words. The model keeps that representation: a memory of 64-bit words indexed by byte
  address, the bounds of the committed heap, and the allocator's global variables.
  Every function of the source is a function from a state to an error or a result with the
  new state.

  The second half of the theory describes a heap by the list of its blocks and the list of
  its free blocks, shows what each function of the allocator makes of the two lists, and
  states the properties of the allocator, on all consistent heaps or on a concrete heap
  reached by a sequence of calls.
\<close>

subsection \<open>Machine words, errors and the state\<close>

type_synonym addr = "64 word"
type_synonym size_t = "64 word"

text \<open>
  The ways a call can end without returning: a memory access outside the committed heap
  (or not word aligned), a failed \<^verbatim>\<open>assert\<close>, the \<^verbatim>\<open>exit(1)\<close> of the consistency checker
  (with the address, the size as printed through the cast to int, and the message), and a
  loop that used up the steps it was given.
\<close>

datatype error =
    Fault addr
  | AssertFailed
  | HeapError addr "32 word" string
  | OutOfFuel

record heap_state =
  mem :: "addr \<Rightarrow> 64 word"
  mem_start_brk :: addr
  mem_brk :: addr
  mem_max_addr :: addr
  flist_first :: addr
  prologue :: addr
  epilogue :: addr
  chunksize :: size_t

definition rbind :: "error + 'a \<Rightarrow> ('a \<Rightarrow> error + 'b) \<Rightarrow> error + 'b" where
  "rbind m f = (case m of Inl e \<Rightarrow> Inl e | Inr x \<Rightarrow> f x)"

definition NULL :: addr where
  "NULL = 0"

text \<open>
  Modelled from the spec: the constants of mm.h, which is not under src/. The spec names
  them (alignment unit, tag overhead, minimum block size large enough for header, footer
  and two link fields) without giving values; the model takes the 64-bit layout: a word of
  8 bytes, two tags, four words.
\<close>

definition WORD_SIZE :: size_t where
  "WORD_SIZE = 8"

definition TAGS_SIZE :: size_t where
  "TAGS_SIZE = 2 * WORD_SIZE"

definition MINBLOCKSIZE :: size_t where
  "MINBLOCKSIZE = 4 * WORD_SIZE"

text \<open>The cast \<^verbatim>\<open>(int) size < 0\<close>: the low 32 bits of the size, read as two's complement.\<close>

definition int_negative :: "size_t \<Rightarrow> bool" where
  "int_negative sz \<longleftrightarrow> sint (ucast sz :: 32 word) < 0"

definition align :: "size_t \<Rightarrow> size_t" where
  "align sz = (sz + (WORD_SIZE - 1)) AND NOT (WORD_SIZE - 1)"

subsection \<open>Memory\<close>

text \<open>
  A word access is inside the model when its eight bytes lie in the committed heap
  \<^verbatim>\<open>[mem_start_brk, mem_brk)\<close> and the address is a multiple of the word size. Any other
  access is undefined behaviour in C; the model stops there with \<open>Fault\<close>.
\<close>

definition valid_word :: "heap_state \<Rightarrow> addr \<Rightarrow> bool" where
  "valid_word s a \<longleftrightarrow>
     unat (mem_start_brk s) \<le> unat a \<and> unat a + 8 \<le> unat (mem_brk s) \<and> 8 dvd unat a"

definition load :: "heap_state \<Rightarrow> addr \<Rightarrow> error + 64 word" where
  "load s a = (if valid_word s a then Inr (mem s a) else Inl (Fault a))"

definition store :: "addr \<Rightarrow> 64 word \<Rightarrow> heap_state \<Rightarrow> error + heap_state" where
  "store a v s = (if valid_word s a then Inr (s\<lparr>mem := (mem s)(a := v)\<rparr>) else Inl (Fault a))"

text \<open>
  \<^verbatim>\<open>memmove(dst, src, n)\<close> and \<^verbatim>\<open>memcpy(dst, src, n)\<close>: the \<open>n\<close> bytes at \<open>src\<close>, as they were
  before the call, are at \<open>dst\<close> afterwards. Both ranges must be word ranges of the heap.
\<close>

definition valid_range :: "heap_state \<Rightarrow> addr \<Rightarrow> size_t \<Rightarrow> bool" where
  "valid_range s a n \<longleftrightarrow>
     n = 0 \<or> (unat (mem_start_brk s) \<le> unat a \<and> unat a + unat n \<le> unat (mem_brk s)
              \<and> 8 dvd unat a \<and> 8 dvd unat n)"

definition memmove :: "addr \<Rightarrow> addr \<Rightarrow> size_t \<Rightarrow> heap_state \<Rightarrow> error + heap_state" where
  "memmove dst src n s =
     (if \<not> valid_range s src n then Inl (Fault src)
      else if \<not> valid_range s dst n then Inl (Fault dst)
      else Inr (s\<lparr>mem := (\<lambda>a. if unat dst \<le> unat a \<and> unat a < unat dst + unat n
                                then mem s (src + (a - dst)) else mem s a)\<rparr>))"

text \<open>
  Modelled from the spec: the growth primitive of memlib, which is not under src/
  (\<^verbatim>\<open>grow(n) -> base_address | FAILURE\<close>). A grant is contiguous with the heap so far and
  returns the old end; a request beyond the limit fails with \<open>-1\<close> and changes nothing.
\<close>

definition mem_sbrk :: "size_t \<Rightarrow> heap_state \<Rightarrow> addr \<times> heap_state" where
  "mem_sbrk incr s =
     (if unat (mem_brk s) + unat incr \<le> unat (mem_max_addr s)
      then (mem_brk s, s\<lparr>mem_brk := mem_brk s + incr\<rparr>)
      else (- 1, s))"

text \<open>Modelled from the spec: the heap bounds of memlib (first byte, last byte).\<close>

definition mem_heap_lo :: "heap_state \<Rightarrow> addr" where
  "mem_heap_lo s = mem_start_brk s"

definition mem_heap_hi :: "heap_state \<Rightarrow> addr" where
  "mem_heap_hi s = mem_brk s - 1"

subsection \<open>Block layout (mminline.h)\<close>

text \<open>
  Modelled from the spec: the block layout operations of mminline.h, which is not under
  src/ (section 4.1: get and set size and allocated bit, physical next as address plus
  size, physical previous from the predecessor's footer, payload and block conversion;
  every setter writes header and footer together; no rounding and no validation).
  The header is the first word of the block, the footer its last word, the allocated bit
  is bit 0 of the tag.
\<close>

definition block_size :: "heap_state \<Rightarrow> addr \<Rightarrow> error + size_t" where
  "block_size s b = rbind (load s b) (\<lambda>h. Inr (h AND - 2))"

definition block_allocated :: "heap_state \<Rightarrow> addr \<Rightarrow> error + bool" where
  "block_allocated s b = rbind (load s b) (\<lambda>h. Inr (h AND 1 \<noteq> 0))"

definition block_end_tag :: "heap_state \<Rightarrow> addr \<Rightarrow> error + addr" where
  "block_end_tag s b = rbind (block_size s b) (\<lambda>sz. Inr (b + sz - WORD_SIZE))"

definition block_end_size :: "heap_state \<Rightarrow> addr \<Rightarrow> error + size_t" where
  "block_end_size s b = rbind (block_end_tag s b) (\<lambda>t. rbind (load s t) (\<lambda>f. Inr (f AND - 2)))"

definition block_end_allocated :: "heap_state \<Rightarrow> addr \<Rightarrow> error + bool" where
  "block_end_allocated s b =
     rbind (block_end_tag s b) (\<lambda>t. rbind (load s t) (\<lambda>f. Inr (f AND 1 \<noteq> 0)))"

definition tag :: "size_t \<Rightarrow> bool \<Rightarrow> 64 word" where
  "tag sz allocated = sz OR (if allocated then 1 else 0)"

definition block_set_size_and_allocated ::
    "addr \<Rightarrow> size_t \<Rightarrow> bool \<Rightarrow> heap_state \<Rightarrow> error + heap_state" where
  "block_set_size_and_allocated b sz allocated s =
     rbind (store b (tag sz allocated) s)
       (store (b + sz - WORD_SIZE) (tag sz allocated))"

definition block_set_size :: "addr \<Rightarrow> size_t \<Rightarrow> heap_state \<Rightarrow> error + heap_state" where
  "block_set_size b sz s =
     rbind (block_allocated s b) (\<lambda>a. block_set_size_and_allocated b sz a s)"

definition block_set_allocated :: "addr \<Rightarrow> bool \<Rightarrow> heap_state \<Rightarrow> error + heap_state" where
  "block_set_allocated b allocated s =
     rbind (block_size s b) (\<lambda>sz. block_set_size_and_allocated b sz allocated s)"

definition block_next :: "heap_state \<Rightarrow> addr \<Rightarrow> error + addr" where
  "block_next s b = rbind (block_size s b) (\<lambda>sz. Inr (b + sz))"

definition block_prev :: "heap_state \<Rightarrow> addr \<Rightarrow> error + addr" where
  "block_prev s b = rbind (load s (b - WORD_SIZE)) (\<lambda>f. Inr (b - (f AND - 2)))"

definition payload_to_block :: "addr \<Rightarrow> addr" where
  "payload_to_block p = p - WORD_SIZE"

definition payload :: "addr \<Rightarrow> addr" where
  "payload b = b + WORD_SIZE"

subsection \<open>The free list (mminline.h)\<close>

text \<open>
  Modelled from the spec: the free list operations of mminline.h, which is not under src/
  (section 4.2). The two links of a free block are its first two payload words.
  \<open>insert_free_block\<close> is LIFO: the new block becomes the entry the anchor designates, so
  that it is the first candidate of the next search (as Scenario A requires), and the old
  entry follows it. \<open>pull_free_block\<close> patches the links of the two neighbours; when the
  anchor itself is removed the anchor moves to the former successor, or becomes null when
  the block was alone.
\<close>

definition block_next_free :: "heap_state \<Rightarrow> addr \<Rightarrow> error + addr" where
  "block_next_free s b = load s (b + WORD_SIZE)"

definition block_prev_free :: "heap_state \<Rightarrow> addr \<Rightarrow> error + addr" where
  "block_prev_free s b = load s (b + 2 * WORD_SIZE)"

definition block_set_next_free :: "addr \<Rightarrow> addr \<Rightarrow> heap_state \<Rightarrow> error + heap_state" where
  "block_set_next_free b n s = store (b + WORD_SIZE) n s"

definition block_set_prev_free :: "addr \<Rightarrow> addr \<Rightarrow> heap_state \<Rightarrow> error + heap_state" where
  "block_set_prev_free b p s = store (b + 2 * WORD_SIZE) p s"

definition insert_free_block :: "addr \<Rightarrow> heap_state \<Rightarrow> error + heap_state" where
  "insert_free_block fb s =
     (if flist_first s = NULL then
        rbind (block_set_next_free fb fb s) (\<lambda>s1.
        rbind (block_set_prev_free fb fb s1) (\<lambda>s2.
        Inr (s2\<lparr>flist_first := fb\<rparr>)))
      else
        rbind (block_prev_free s (flist_first s)) (\<lambda>last.
        rbind (block_set_next_free fb (flist_first s) s) (\<lambda>s1.
        rbind (block_set_prev_free fb last s1) (\<lambda>s2.
        rbind (block_set_next_free last fb s2) (\<lambda>s3.
        rbind (block_set_prev_free (flist_first s) fb s3) (\<lambda>s4.
        Inr (s4\<lparr>flist_first := fb\<rparr>)))))))"

definition pull_free_block :: "addr \<Rightarrow> heap_state \<Rightarrow> error + heap_state" where
  "pull_free_block fb s =
     rbind (block_next_free s fb) (\<lambda>nxt.
     rbind (block_prev_free s fb) (\<lambda>prv.
     rbind (block_set_next_free prv nxt s) (\<lambda>s1.
     rbind (block_set_prev_free nxt prv s1) (\<lambda>s2.
     Inr (if fb = flist_first s
          then s2\<lparr>flist_first := (if nxt = fb then NULL else nxt)\<rparr>
          else s2)))))"

subsection \<open>The allocator core (mm.c)\<close>

definition mm_coalesce :: "addr \<Rightarrow> heap_state \<Rightarrow> error + heap_state" where
  "mm_coalesce block s =
     rbind (block_next s block) (\<lambda>next.
     rbind (block_prev s block) (\<lambda>prev.
     rbind (pull_free_block block s) (\<lambda>s1.
     rbind (block_allocated s1 next) (\<lambda>next_allocated.
     rbind (if \<not> next_allocated then
              rbind (pull_free_block next s1) (\<lambda>s2.
              rbind (block_size s2 block) (\<lambda>bsz.
              rbind (block_size s2 next) (\<lambda>nsz.
              block_set_size block (bsz + nsz) s2)))
            else Inr s1) (\<lambda>s3.
     rbind (block_allocated s3 prev) (\<lambda>prev_allocated.
     rbind (if \<not> prev_allocated then
              rbind (pull_free_block prev s3) (\<lambda>s4.
              rbind (block_size s4 prev) (\<lambda>psz.
              rbind (block_size s4 block) (\<lambda>bsz.
              rbind (block_set_size prev (psz + bsz) s4) (\<lambda>s5.
              Inr (prev, s5)))))
            else Inr (block, s3)) (\<lambda>(block', s6).
     insert_free_block block' s6)))))))"

definition mm_break :: "addr \<Rightarrow> size_t \<Rightarrow> heap_state \<Rightarrow> error + heap_state" where
  "mm_break block sz s =
     rbind (block_size s block) (\<lambda>block_size_init.
     rbind (pull_free_block block s) (\<lambda>s1.
     rbind (block_set_size_and_allocated block sz True s1) (\<lambda>s2.
     rbind (block_next s2 block) (\<lambda>new_free_block.
     rbind (block_set_size_and_allocated new_free_block (block_size_init - sz) False s2) (\<lambda>s3.
     insert_free_block new_free_block s3)))))"

definition mm_extend_heap :: "size_t \<Rightarrow> heap_state \<Rightarrow> error + addr \<times> heap_state" where
  "mm_extend_heap size0 s =
     (if int_negative size0 then Inl AssertFailed
      else
        let size1 = (if size0 < MINBLOCKSIZE then MINBLOCKSIZE else size0);
            sz = align size1;
            (r, s1) = mem_sbrk sz s
        in if r = - 1 then Inr (- 1, s1)
           else
             let ext = epilogue s1 in
             rbind (block_set_size_and_allocated ext sz False s1) (\<lambda>s2.
             rbind (insert_free_block ext s2) (\<lambda>s3.
             rbind (block_next s3 ext) (\<lambda>e.
             rbind (block_set_size_and_allocated e TAGS_SIZE True (s3\<lparr>epilogue := e\<rparr>)) (\<lambda>s4.
             Inr (ext, s4))))))"

definition mm_init :: "heap_state \<Rightarrow> error + int \<times> heap_state" where
  "mm_init s =
     (let s0 = s\<lparr>flist_first := NULL\<rparr>;
          (r, s1) = mem_sbrk MINBLOCKSIZE s0;
          s2 = s1\<lparr>prologue := r\<rparr>
      in if r = - 1 then Inr (- 1, s2)
         else
           rbind (block_set_size_and_allocated (prologue s2) TAGS_SIZE True s2) (\<lambda>s3.
           rbind (block_next s3 (prologue s3)) (\<lambda>e.
           rbind (block_set_size_and_allocated e TAGS_SIZE True (s3\<lparr>epilogue := e\<rparr>)) (\<lambda>s4.
           Inr (0, s4)))))"

text \<open>
  The search loop of \<^verbatim>\<open>mm_malloc\<close> (lines 145 to 155). It follows the links of the free list
  and has no bound of its own, so the model gives it a number of iterations. The result is
  the block the loop stops at, or \<open>None\<close> when the loop body returns NULL from \<^verbatim>\<open>mm_malloc\<close>.
\<close>

fun malloc_search ::
    "nat \<Rightarrow> addr \<Rightarrow> size_t \<Rightarrow> size_t \<Rightarrow> addr \<Rightarrow> heap_state \<Rightarrow> error + addr option \<times> heap_state" where
  "malloc_search 0 first block_size_req mx cur s = Inl OutOfFuel"
| "malloc_search (Suc n) first block_size_req mx cur s =
     rbind (block_size s cur) (\<lambda>sz.
       if sz < block_size_req then
         rbind (block_next_free s cur) (\<lambda>nxt.
           if nxt = first then
             rbind (mm_extend_heap mx s) (\<lambda>(ext, s1).
               if ext = - 1 then Inr (None, s1)
               else malloc_search n first block_size_req mx ext s1)
           else malloc_search n first block_size_req mx nxt s)
       else Inr (Some cur, s))"

definition mm_malloc :: "nat \<Rightarrow> size_t \<Rightarrow> heap_state \<Rightarrow> error + addr \<times> heap_state" where
  "mm_malloc fuel size0 s =
     (if int_negative size0 then Inr (NULL, s)
      else
        let first = flist_first s;
            size1 = (if size0 < MINBLOCKSIZE then MINBLOCKSIZE else size0);
            sz = align size1;
            block_size_req = sz + TAGS_SIZE;
            cur = flist_first s;
            mx = (if block_size_req > chunksize s then block_size_req else chunksize s)
        in
        rbind (if cur = NULL then
                 rbind (mm_extend_heap mx s) (\<lambda>(ext, s1).
                   if ext = - 1 then Inr (None, s1) else Inr (Some ext, s1))
               else malloc_search fuel first block_size_req mx cur s) (\<lambda>(found, s1).
        case found of
          None \<Rightarrow> Inr (NULL, s1)
        | Some cur \<Rightarrow>
            rbind (block_size s1 cur) (\<lambda>csz.
            rbind (if csz - block_size_req \<ge> 8 * MINBLOCKSIZE then mm_break cur block_size_req s1
                   else rbind (pull_free_block cur s1) (block_set_allocated cur True)) (\<lambda>s2.
            Inr (payload cur, s2)))))"

definition mm_free :: "addr \<Rightarrow> heap_state \<Rightarrow> error + heap_state" where
  "mm_free ptr s =
     (let block = payload_to_block ptr in
      rbind (block_allocated s block) (\<lambda>a.
        if \<not> a then Inl AssertFailed
        else
          rbind (block_set_allocated block False s) (\<lambda>s1.
          rbind (insert_free_block block s1) (\<lambda>s2.
          mm_coalesce block s2))))"

text \<open>
  \<^verbatim>\<open>mm_realloc\<close>, in three parts so that each reads like its lines of the source:
  the last resort (lines 257 to 268), the attempts to grow in place (lines 215 to 256),
  and the argument checks (lines 195 to 214). When \<open>ptr\<close> is null and \<open>size\<close> is not zero
  the source calls \<^verbatim>\<open>mm_malloc\<close>, drops the pointer it returns, and goes on with the null
  \<open>ptr\<close>; the model does the same.
\<close>

definition realloc_fallback ::
    "nat \<Rightarrow> addr \<Rightarrow> size_t \<Rightarrow> size_t \<Rightarrow> heap_state \<Rightarrow> error + addr \<times> heap_state" where
  "realloc_fallback fuel ptr sz cpy_size s =
     rbind (mm_malloc fuel sz s) (\<lambda>(payload_ptr, s1).
       if payload_ptr = NULL then Inr (NULL, s1)
       else
         let new_block = payload_to_block payload_ptr in
         rbind (memmove (payload new_block) ptr cpy_size s1) (\<lambda>s2.
         rbind (mm_free ptr s2) (\<lambda>s3.
         Inr (payload new_block, s3))))"

definition realloc_grow ::
    "nat \<Rightarrow> addr \<Rightarrow> size_t \<Rightarrow> heap_state \<Rightarrow> error + addr \<times> heap_state" where
  "realloc_grow fuel ptr size0 s =
     (let sz = align size0 + TAGS_SIZE;
          block = payload_to_block ptr
      in
      rbind (block_size s block) (\<lambda>original_size.
        if original_size \<ge> sz then Inr (payload block, s)
        else
          rbind (block_next s block) (\<lambda>next.
          let cpy_size = original_size - TAGS_SIZE in
          rbind (block_allocated s next) (\<lambda>next_allocated.
          rbind (if \<not> next_allocated then
                   rbind (pull_free_block next s) (\<lambda>s1.
                   rbind (block_size s1 block) (\<lambda>bsz.
                   rbind (block_size s1 next) (\<lambda>nsz.
                   rbind (block_set_size_and_allocated block (bsz + nsz) True s1) (\<lambda>s2.
                   rbind (block_size s2 block) (\<lambda>osz. Inr (osz, s2))))))
                 else Inr (original_size, s)) (\<lambda>(original_size1, s3).
          if \<not> next_allocated \<and> sz \<le> original_size1 then Inr (payload block, s3)
          else if original_size1 < sz then
            rbind (block_prev s3 block) (\<lambda>prev.
            rbind (block_allocated s3 prev) (\<lambda>prev_allocated.
              if \<not> prev_allocated then
                rbind (pull_free_block prev s3) (\<lambda>s4.
                rbind (block_size s4 block) (\<lambda>bsz.
                rbind (block_size s4 prev) (\<lambda>psz.
                rbind (block_set_size_and_allocated prev (bsz + psz) True s4) (\<lambda>s5.
                rbind (block_size s5 prev) (\<lambda>original_size2.
                  if sz \<le> original_size2 then
                    rbind (memmove (payload prev) ptr cpy_size s5) (\<lambda>s6.
                    Inr (payload prev, s6))
                  else realloc_fallback fuel (payload prev) sz cpy_size s5)))))
              else realloc_fallback fuel ptr sz cpy_size s3))
          else realloc_fallback fuel ptr sz cpy_size s3)))))"

definition mm_realloc ::
    "nat \<Rightarrow> addr \<Rightarrow> size_t \<Rightarrow> heap_state \<Rightarrow> error + addr \<times> heap_state" where
  "mm_realloc fuel ptr sz s =
     (if int_negative sz then Inr (NULL, s)
      else if ptr = NULL \<and> sz = 0 then Inr (NULL, s)
      else
        rbind (if ptr = NULL then mm_malloc fuel sz s else Inr (ptr, s)) (\<lambda>(r, s1).
          if ptr = NULL \<and> r = NULL then Inr (NULL, s1)
          else if sz = 0 then rbind (mm_free ptr s1) (\<lambda>s2. Inr (NULL, s2))
          else realloc_grow fuel ptr sz s1))"

subsection \<open>The consistency checker (mm.c)\<close>

definition heap_error :: "heap_state \<Rightarrow> addr \<Rightarrow> string \<Rightarrow> error + 'a" where
  "heap_error s b msg = rbind (block_size s b) (\<lambda>sz. Inl (HeapError b (ucast sz) msg))"

text \<open>The loop over the free list (lines 293 to 319), with a number of iterations.\<close>

fun check_free_list :: "nat \<Rightarrow> addr \<Rightarrow> heap_state \<Rightarrow> error + unit" where
  "check_free_list 0 cur s = Inl OutOfFuel"
| "check_free_list (Suc n) cur s =
     (if cur = flist_first s then Inr ()
      else
        rbind (block_allocated s cur) (\<lambda>a.
        if a then heap_error s cur ''found an allocated block in the free list!''
        else
          rbind (block_next_free s cur) (\<lambda>nf.
          rbind (block_allocated s nf) (\<lambda>nfa.
          if nfa then heap_error s cur ''next free block is not free!''
          else
            rbind (block_prev_free s cur) (\<lambda>pf.
            rbind (block_allocated s pf) (\<lambda>pfa.
            if pfa then heap_error s cur ''next free block is not free!''
            else
              rbind (block_next s cur) (\<lambda>nb.
              rbind (block_allocated s nb) (\<lambda>nba.
              if \<not> nba then heap_error s cur ''has not coalesced with next block!''
              else
                rbind (block_prev s cur) (\<lambda>pb.
                rbind (block_allocated s pb) (\<lambda>pba.
                if \<not> pba then heap_error s cur ''has not coalesced with previous block!''
                else
                  rbind (block_next_free s cur) (\<lambda>nxt.
                  check_free_list n nxt s)))))))))))"

text \<open>The loop over the physical blocks (lines 331 to 343), with a number of iterations.\<close>

fun check_blocks :: "nat \<Rightarrow> addr \<Rightarrow> heap_state \<Rightarrow> error + addr" where
  "check_blocks 0 cur s = Inl OutOfFuel"
| "check_blocks (Suc n) cur s =
     (if cur = epilogue s then Inr cur
      else if cur < mem_heap_lo s \<or> cur > mem_heap_hi s
      then heap_error s cur ''block out of heap's bounds!''
      else
        rbind (block_size s cur) (\<lambda>sz.
        rbind (block_end_size s cur) (\<lambda>esz.
        rbind (block_allocated s cur) (\<lambda>a.
        rbind (block_end_allocated s cur) (\<lambda>ea.
        if sz \<noteq> esz \<or> a \<noteq> ea
        then heap_error s cur ''header and footer of block do not match!''
        else rbind (block_next s cur) (\<lambda>nxt. check_blocks n nxt s))))))"

definition mm_check_heap :: "nat \<Rightarrow> heap_state \<Rightarrow> error + int" where
  "mm_check_heap fuel s =
     (let cur = flist_first s in
      if cur = NULL then Inr 0
      else
        rbind (block_allocated s cur) (\<lambda>a.
        if a then heap_error s cur ''found an allocated block in the free list!''
        else
          rbind (block_next_free s cur) (\<lambda>nxt.
          rbind (check_free_list fuel nxt s) (\<lambda>_.
          if mem_heap_lo s \<noteq> prologue s
          then rbind (block_size s (prologue s)) (\<lambda>sz.
                 Inl (HeapError (prologue s) (ucast sz)
                        ''prologue is not the first block in the heap!''))
          else if mem_heap_hi s - (TAGS_SIZE - 1) \<noteq> epilogue s
          then rbind (block_size s (epilogue s)) (\<lambda>sz.
                 Inl (HeapError (epilogue s) (ucast sz)
                        ''epilogue is not the last block in the heap!''))
          else
            rbind (check_blocks fuel (mem_heap_lo s) s) (\<lambda>cur.
            if epilogue s < mem_heap_lo s \<or> epilogue s > mem_heap_hi s
            then heap_error s cur ''block out of heap's bounds!''
            else Inr 0)))))"

subsection \<open>Concrete heaps\<close>

text \<open>
  The heaps the closed theorems below are evaluated on. Each is written out as a state and
  is shown further down to be the state a sequence of calls of the allocator reaches from
  the empty heap \<open>boot\<close>, whose memory starts at address 4096.
\<close>

definition boot :: "addr \<Rightarrow> heap_state" where
  "boot lim = \<lparr>mem = (\<lambda>_. 0), mem_start_brk = 4096, mem_brk = 4096, mem_max_addr = lim,
     flist_first = 0, prologue = 0, epilogue = 0, chunksize = 1024\<rparr>"

definition and_then ::
    "error + 'a \<times> heap_state \<Rightarrow> (heap_state \<Rightarrow> error + 'b \<times> heap_state)
       \<Rightarrow> error + 'b \<times> heap_state" where
  "and_then m f = rbind m (\<lambda>(x, s). f s)"

definition release :: "addr \<Rightarrow> heap_state \<Rightarrow> error + unit \<times> heap_state" where
  "release p s = rbind (mm_free p s) (\<lambda>s'. Inr ((), s'))"

definition write_word :: "addr \<Rightarrow> 64 word \<Rightarrow> heap_state \<Rightarrow> error + unit \<times> heap_state" where
  "write_word a v s = rbind (store a v s) (\<lambda>s'. Inr ((), s'))"

definition returned :: "error + addr \<times> heap_state \<Rightarrow> error + addr" where
  "returned r = rbind r (\<lambda>(p, s). Inr p)"

definition payload_words :: "nat \<Rightarrow> error + addr \<times> heap_state \<Rightarrow> error + 64 word list" where
  "payload_words n r = rbind r (\<lambda>(p, s). Inr (map (\<lambda>i. mem s (p + 8 * of_nat i)) [0..<n]))"

text \<open>After \<^verbatim>\<open>mm_init\<close>: Prologue at 4096, Epilogue at 4112, no free block.\<close>

definition heap_fresh :: heap_state where
  "heap_fresh = \<lparr>mem = (\<lambda>_. 0)(4096 := 17, 4104 := 17, 4112 := 17, 4120 := 17),
     mem_start_brk = 4096, mem_brk = 4128, mem_max_addr = 100000,
     flist_first = 0, prologue = 4096, epilogue = 4112, chunksize = 1024\<rparr>"

text \<open>
  One allocated block of 1024 bytes at 4112 fills the heap, the free list is empty, and the
  caller has written one word past the end of its payload, over the footer at 5128.
\<close>

definition heap_overrun :: heap_state where
  "heap_overrun = \<lparr>mem = (\<lambda>_. 0)(4096 := 17, 4104 := 17, 4112 := 1025, 4120 := 4112,
       4128 := 4112, 5128 := 0, 5136 := 17, 5144 := 17),
     mem_start_brk = 4096, mem_brk = 5152, mem_max_addr = 100000,
     flist_first = 0, prologue = 4096, epilogue = 5136, chunksize = 1024\<rparr>"

text \<open>
  Three blocks: a free block of 48 bytes at 4112 (the only one on the free list), an
  allocated block of 48 bytes at 4160 whose payload at 4168 holds the words 101 to 104,
  and an allocated block of 928 bytes at 4208.
\<close>

definition heap_three :: heap_state where
  "heap_three = \<lparr>mem = (\<lambda>_. 0)(4096 := 17, 4104 := 17,
       4112 := 48, 4120 := 4112, 4128 := 4112, 4152 := 48,
       4160 := 49, 4168 := 101, 4176 := 102, 4184 := 103, 4192 := 104, 4200 := 49,
       4208 := 929, 4216 := 4208, 4224 := 4208, 5128 := 929,
       5136 := 17, 5144 := 17),
     mem_start_brk = 4096, mem_brk = 5152, mem_max_addr = 100000,
     flist_first = 4112, prologue = 4096, epilogue = 5136, chunksize = 1024\<rparr>"


text \<open>
  The fresh heap when the memory ends right after the two sentinels: \<^verbatim>\<open>mem_sbrk\<close> has
  nothing left to give.
\<close>

definition heap_full :: heap_state where
  "heap_full = \<lparr>mem = (\<lambda>_. 0)(4096 := 17, 4104 := 17, 4112 := 17, 4120 := 17),
     mem_start_brk = 4096, mem_brk = 4128, mem_max_addr = 4128,
     flist_first = 0, prologue = 4096, epilogue = 4112, chunksize = 1024\<rparr>"

text \<open>
  After \<^verbatim>\<open>mm_init\<close> and \<^verbatim>\<open>mm_malloc(32)\<close>: the first chunk of 1024 bytes was split into an
  allocated block of 48 bytes at 4112 and a free block of 976 bytes at 4160, the last
  block before the Epilogue.
\<close>

definition heap_split :: heap_state where
  "heap_split = \<lparr>mem = (\<lambda>_. 0)(4096 := 17, 4104 := 17,
       4112 := 49, 4120 := 4112, 4128 := 4112, 4152 := 49,
       4160 := 976, 4168 := 4160, 4176 := 4160, 5128 := 976,
       5136 := 17, 5144 := 17),
     mem_start_brk = 4096, mem_brk = 5152, mem_max_addr = 100000,
     flist_first = 4160, prologue = 4096, epilogue = 5136, chunksize = 1024\<rparr>"

text \<open>
  \<open>heap_split\<close> after \<^verbatim>\<open>mm_extend_heap(2000)\<close>: the old Epilogue at 5136 has become a free
  block of 2000 bytes, right after the free block at 4160.
\<close>

definition heap_extended :: heap_state where
  "heap_extended = \<lparr>mem = (\<lambda>_. 0)(4096 := 17, 4104 := 17,
       4112 := 49, 4120 := 4112, 4128 := 4112, 4152 := 49,
       4160 := 976, 4168 := 5136, 4176 := 5136, 5128 := 976,
       5136 := 2000, 5144 := 4160, 5152 := 4160, 7128 := 2000,
       7136 := 17, 7144 := 17),
     mem_start_brk = 4096, mem_brk = 7152, mem_max_addr = 100000,
     flist_first = 5136, prologue = 4096, epilogue = 7136, chunksize = 1024\<rparr>"

text \<open>
  \<open>heap_three\<close> in the middle of \<^verbatim>\<open>mm_free(4168)\<close>, when \<^verbatim>\<open>mm_coalesce\<close> is called: the block
  at 4160 is marked free and heads the free list, before the free block at 4112.
\<close>

definition heap_marked :: heap_state where
  "heap_marked = \<lparr>mem = (\<lambda>_. 0)(4096 := 17, 4104 := 17,
       4112 := 48, 4120 := 4160, 4128 := 4160, 4152 := 48,
       4160 := 48, 4168 := 4112, 4176 := 4112, 4184 := 103, 4192 := 104, 4200 := 48,
       4208 := 929, 4216 := 4208, 4224 := 4208, 5128 := 929,
       5136 := 17, 5144 := 17),
     mem_start_brk = 4096, mem_brk = 5152, mem_max_addr = 100000,
     flist_first = 4160, prologue = 4096, epilogue = 5136, chunksize = 1024\<rparr>"

text \<open>\<open>heap_three\<close> after \<^verbatim>\<open>mm_free(4168)\<close>: one free block of 96 bytes at 4112.\<close>

definition heap_merged :: heap_state where
  "heap_merged = \<lparr>mem = (\<lambda>_. 0)(4096 := 17, 4104 := 17,
       4112 := 96, 4120 := 4112, 4128 := 4112, 4152 := 48,
       4160 := 48, 4168 := 4112, 4176 := 4112, 4184 := 103, 4192 := 104, 4200 := 96,
       4208 := 929, 4216 := 4208, 4224 := 4208, 5128 := 929,
       5136 := 17, 5144 := 17),
     mem_start_brk = 4096, mem_brk = 5152, mem_max_addr = 100000,
     flist_first = 4112, prologue = 4096, epilogue = 5136, chunksize = 1024\<rparr>"

text \<open>
  \<open>heap_split\<close> in the middle of \<^verbatim>\<open>mm_free(4120)\<close>, when \<^verbatim>\<open>mm_coalesce\<close> is called: the block
  at 4112 is marked free and heads the free list, before the free block at 4160 that
  follows it in the heap.
\<close>

definition heap_split_marked :: heap_state where
  "heap_split_marked = \<lparr>mem = (\<lambda>_. 0)(4096 := 17, 4104 := 17,
       4112 := 48, 4120 := 4160, 4128 := 4160, 4152 := 48,
       4160 := 976, 4168 := 4112, 4176 := 4112, 5128 := 976,
       5136 := 17, 5144 := 17),
     mem_start_brk = 4096, mem_brk = 5152, mem_max_addr = 100000,
     flist_first = 4112, prologue = 4096, epilogue = 5136, chunksize = 1024\<rparr>"

section \<open>The heap as a list of blocks\<close>

text \<open>
  The properties of the allocator are stated over two lists that describe a heap: the
  blocks between the Prologue and the Epilogue in address order, and the blocks of the
  free list in the order of their next links, from the anchor. A block is its address,
  its size and its allocated bit.
\<close>

type_synonym blk = "addr \<times> size_t \<times> bool"

text \<open>
  The blocks tile the addresses from \<open>a\<close> to \<open>e\<close>: each starts where the one before it
  ends, and each size is a multiple of the word size that leaves room for the two tags.
\<close>

fun layout :: "nat \<Rightarrow> blk list \<Rightarrow> nat \<Rightarrow> bool" where
  "layout a [] e \<longleftrightarrow> a = e"
| "layout a ((x, sz, al) # bs) e \<longleftrightarrow>
     unat x = a \<and> 8 dvd unat sz \<and> 16 \<le> unat sz \<and> layout (a + unat sz) bs e"

text \<open>The header and the footer of every block hold its size and its allocated bit.\<close>

definition tags_ok :: "(addr \<Rightarrow> 64 word) \<Rightarrow> blk list \<Rightarrow> bool" where
  "tags_ok m bs \<longleftrightarrow> (\<forall>(x, sz, al) \<in> set bs. m x = tag sz al \<and> m (x + sz - 8) = tag sz al)"

definition heap_at :: "heap_state \<Rightarrow> blk list \<Rightarrow> nat \<Rightarrow> bool" where
  "heap_at s blocks e \<longleftrightarrow>
     8 dvd unat (mem_start_brk s) \<and> layout (unat (mem_start_brk s)) blocks e \<and>
     e \<le> unat (mem_brk s) \<and> tags_ok (mem s) blocks"

text \<open>
  The links of the free list: the next link of a block is the word after its header, the
  previous link the word after that. Neighbours in the list point at each other, the list
  closes into a ring, and \<^verbatim>\<open>flist_first\<close> is its first block, or null when it is empty.
\<close>

fun adj :: "(addr \<Rightarrow> 64 word) \<Rightarrow> addr list \<Rightarrow> bool" where
  "adj m (x # y # zs) \<longleftrightarrow> m (x + 8) = y \<and> m (y + 16) = x \<and> adj m (y # zs)"
| "adj m [x] \<longleftrightarrow> True"
| "adj m [] \<longleftrightarrow> True"

definition cyc :: "(addr \<Rightarrow> 64 word) \<Rightarrow> addr list \<Rightarrow> bool" where
  "cyc m L \<longleftrightarrow> (case L of [] \<Rightarrow> True | x # xs \<Rightarrow> adj m (x # xs @ [x]))"

definition ring :: "heap_state \<Rightarrow> addr list \<Rightarrow> bool" where
  "ring s L \<longleftrightarrow> flist_first s = (case L of [] \<Rightarrow> NULL | x # xs \<Rightarrow> x) \<and> cyc (mem s) L"

text \<open>The free blocks that have room for a header, two links and a footer.\<close>

definition big_free :: "blk list \<Rightarrow> addr list" where
  "big_free blocks = map fst (filter (\<lambda>(x, sz, al). \<not> al \<and> 32 \<le> unat sz) blocks)"

definition core :: "heap_state \<Rightarrow> blk list \<Rightarrow> nat \<Rightarrow> addr list \<Rightarrow> bool" where
  "core s blocks e L \<longleftrightarrow>
     heap_at s blocks e \<and> ring s L \<and> distinct L \<and> NULL \<notin> set L \<and>
     set L \<subseteq> set (big_free blocks)"

text \<open>The blocks of the heap with the two sentinels around them.\<close>

definition all_blocks :: "heap_state \<Rightarrow> blk list \<Rightarrow> blk list" where
  "all_blocks s bs = (prologue s, 16, True) # bs @ [(epilogue s, 16, True)]"

text \<open>
  \<open>consistent s bs L\<close>: the memory of \<open>s\<close> holds the Prologue, the blocks \<open>bs\<close> and the
  Epilogue, one after the other from the start of the heap to its break; every block of
  \<open>bs\<close> is at least a minimal block; and the free list is the ring \<open>L\<close> of distinct free
  blocks of \<open>bs\<close>.
\<close>

definition consistent :: "heap_state \<Rightarrow> blk list \<Rightarrow> addr list \<Rightarrow> bool" where
  "consistent s bs L \<longleftrightarrow>
     core s (all_blocks s bs) (unat (mem_brk s)) L \<and> (\<forall>(x, sz, al) \<in> set bs. 32 \<le> unat sz)"

(* ---------- geometry ---------- *)

text \<open>No next link of a block of the list is the previous link of another.\<close>

definition sep :: "addr list \<Rightarrow> bool" where
  "sep L \<longleftrightarrow> (\<forall>x \<in> set L. \<forall>y \<in> set L. x + 8 \<noteq> y + 16)"

text \<open>
  What a call leaves alone: \<open>frame\<close> when the heap keeps its bounds and its sentinels,
  \<open>grown\<close> when the break and the Epilogue have moved up by \<open>n\<close> bytes.
\<close>

definition frame :: "heap_state \<Rightarrow> heap_state \<Rightarrow> bool" where
  "frame s s' \<longleftrightarrow> mem_start_brk s' = mem_start_brk s \<and> mem_brk s' = mem_brk s \<and>
     mem_max_addr s' = mem_max_addr s \<and> prologue s' = prologue s \<and> epilogue s' = epilogue s \<and>
     chunksize s' = chunksize s"

definition grown :: "heap_state \<Rightarrow> size_t \<Rightarrow> heap_state \<Rightarrow> bool" where
  "grown s n s' \<longleftrightarrow> mem_start_brk s' = mem_start_brk s \<and> mem_brk s' = mem_brk s + n \<and>
     mem_max_addr s' = mem_max_addr s \<and> prologue s' = prologue s \<and>
     epilogue s' = epilogue s + n \<and> chunksize s' = chunksize s"

text \<open>
  The sizes the allocator computes: the size \<^verbatim>\<open>mm_extend_heap\<close> asks \<^verbatim>\<open>mem_sbrk\<close> for (lines
  74 to 77), the block size \<^verbatim>\<open>mm_malloc\<close> needs for a request (lines 127 to 131), and the
  size it extends the heap by, \<^verbatim>\<open>max(block_size_req, _chunksize)\<close> with the comparison of
  the macro (line 135).
\<close>

definition extension :: "size_t \<Rightarrow> size_t" where
  "extension size0 = align (if size0 < MINBLOCKSIZE then MINBLOCKSIZE else size0)"

definition request :: "size_t \<Rightarrow> size_t" where
  "request sz0 = align (if sz0 < MINBLOCKSIZE then MINBLOCKSIZE else sz0) + TAGS_SIZE"

definition growth :: "size_t \<Rightarrow> heap_state \<Rightarrow> size_t" where
  "growth req s = (if req > chunksize s then req else chunksize s)"

text \<open>
  The size of the block at an address, and the first block of the free list that is
  large enough for a request.
\<close>

definition blk_size :: "blk list \<Rightarrow> addr \<Rightarrow> size_t" where
  "blk_size bs x = (case map_of bs x of Some (sz, al) \<Rightarrow> sz | None \<Rightarrow> 0)"

definition first_fit :: "size_t \<Rightarrow> blk list \<Rightarrow> addr list \<Rightarrow> addr option" where
  "first_fit req bs L = find (\<lambda>x. req \<le> blk_size bs x) L"

text \<open>
  The blocks and the free list once the block at \<open>x\<close> has been taken for a request of
  \<open>req\<close> bytes: split in two when at least 256 bytes would be left over, taken whole
  otherwise.
\<close>

fun place :: "size_t \<Rightarrow> addr \<Rightarrow> blk list \<Rightarrow> blk list" where
  "place req x [] = []"
| "place req x ((y, sz, al) # bs) =
     (if y = x
      then (if unat req + 256 \<le> unat sz
            then [(x, req, True), (x + req, sz - req, False)] else [(x, sz, True)]) @ bs
      else (y, sz, al) # place req x bs)"

definition place_list :: "size_t \<Rightarrow> addr \<Rightarrow> blk list \<Rightarrow> addr list \<Rightarrow> addr list" where
  "place_list req x bs L =
     (if unat req + 256 \<le> unat (blk_size bs x) then (x + req) # remove1 x L else remove1 x L)"

text \<open>
  The block \<^verbatim>\<open>mm_malloc\<close> places a request in, with the heap it stands in at that moment:
  the first fit of the free list, or else the block a successful extension has just put
  where the Epilogue was.
\<close>

definition candidate ::
    "size_t \<Rightarrow> heap_state \<Rightarrow> blk list \<Rightarrow> addr list \<Rightarrow> (addr \<times> blk list \<times> addr list) option" where
  "candidate sz0 s bs L =
     (case first_fit (request sz0) bs L of
        Some x \<Rightarrow> Some (x, bs, L)
      | None \<Rightarrow>
          if \<not> int_negative (growth (request sz0) s)
             \<and> unat (mem_brk s) + unat (extension (growth (request sz0) s)) \<le> unat (mem_max_addr s)
          then Some (epilogue s, bs @ [(epilogue s, extension (growth (request sz0) s), False)],
                     epilogue s # L)
          else None)"

text \<open>
  The physical neighbours of a block, given the blocks after it and the blocks before it:
  a block of the heap, or a sentinel.
\<close>

definition next_blk :: "heap_state \<Rightarrow> blk list \<Rightarrow> blk" where
  "next_blk s ys = (case ys of [] \<Rightarrow> (epilogue s, 16, True) | b # _ \<Rightarrow> b)"

definition prev_blk :: "heap_state \<Rightarrow> blk list \<Rightarrow> blk" where
  "prev_blk s xs = (if xs = [] then (prologue s, 16, True) else last xs)"

text \<open>
  Every free block other than \<open>x\<close> is on the free list; every free block is on the free
  list.
\<close>

definition listed :: "addr \<Rightarrow> blk list \<Rightarrow> addr list \<Rightarrow> bool" where
  "listed x bs L \<longleftrightarrow> (\<forall>(a, sa, al) \<in> set bs. \<not> al \<and> a \<noteq> x \<longrightarrow> a \<in> set L)"

definition complete :: "blk list \<Rightarrow> addr list \<Rightarrow> bool" where
  "complete bs L \<longleftrightarrow> (\<forall>(a, sa, al) \<in> set bs. \<not> al \<longrightarrow> a \<in> set L)"

text \<open>
  No two adjacent blocks are both free. The first argument is the allocated bit of the
  block before the list: the Prologue, which is allocated, for the whole heap.
\<close>

fun no_adjacent_free :: "bool \<Rightarrow> blk list \<Rightarrow> bool" where
  "no_adjacent_free pa [] = True"
| "no_adjacent_free pa ((x, sz, al) # bs) \<longleftrightarrow> (pa \<or> al) \<and> no_adjacent_free al bs"

definition last_allocated :: "bool \<Rightarrow> blk list \<Rightarrow> bool" where
  "last_allocated pa bs = (if bs = [] then pa else snd (snd (last bs)))"

text \<open>
  The blocks and the free list after the free block \<open>x\<close> of size \<open>sz\<close> has been merged
  with its free neighbours: \<open>pb\<close> is the block before it and \<open>nb\<close> the block after it.
\<close>

definition merged :: "blk \<Rightarrow> blk list \<Rightarrow> addr \<Rightarrow> size_t \<Rightarrow> blk list \<Rightarrow> blk \<Rightarrow> blk list" where
  "merged pb xs x sz ys nb =
     (case pb of (p, sp, ap) \<Rightarrow> case nb of (y, sy, ay) \<Rightarrow>
        (if ap then xs else butlast xs)
        @ ((if ap then x else p),
           (if ap then (if ay then sz else sz + sy) else sp + (if ay then sz else sz + sy)), False)
        # (if ay then ys else tl ys))"

definition merged_list :: "blk \<Rightarrow> addr \<Rightarrow> blk \<Rightarrow> addr list \<Rightarrow> addr list" where
  "merged_list pb x nb L =
     (case pb of (p, sp, ap) \<Rightarrow> case nb of (y, sy, ay) \<Rightarrow>
        (if ap then x else p) # remove1 p (remove1 y (remove1 x L)))"

section \<open>Evaluation on concrete heaps\<close>

lemmas model_defs =
  rbind_def NULL_def WORD_SIZE_def TAGS_SIZE_def MINBLOCKSIZE_def int_negative_def align_def
  valid_word_def load_def store_def valid_range_def memmove_def mem_sbrk_def mem_heap_lo_def
  mem_heap_hi_def block_size_def block_allocated_def block_end_tag_def block_end_size_def
  block_end_allocated_def tag_def block_set_size_and_allocated_def block_set_size_def
  block_set_allocated_def block_next_def block_prev_def payload_to_block_def payload_def
  block_next_free_def block_prev_free_def block_set_next_free_def block_set_prev_free_def
  insert_free_block_def pull_free_block_def mm_coalesce_def mm_break_def mm_extend_heap_def
  mm_init_def mm_malloc_def mm_free_def realloc_fallback_def realloc_grow_def mm_realloc_def
  heap_error_def mm_check_heap_def

lemmas scenario_defs = boot_def and_then_def release_def write_word_def returned_def
  payload_words_def

lemma heap_fresh_reached: "mm_init (boot 100000) = Inr (0, heap_fresh)"
  by (simp add: model_defs scenario_defs heap_fresh_def)

lemma heap_overrun_reached:
  "and_then (and_then (mm_init (boot 100000)) (mm_malloc 1 992)) (write_word 5128 0)
   = Inr ((), heap_overrun)"
  by (simp add: model_defs scenario_defs heap_overrun_def fun_eq_iff)

lemma heap_three_reached:
  "and_then (and_then (and_then (and_then (and_then (and_then (and_then (and_then
     (mm_init (boot 100000))
     (mm_malloc 1 32)) (mm_malloc 1 32)) (mm_malloc 1 912)) (release 4120))
     (write_word 4168 101)) (write_word 4176 102)) (write_word 4184 103)) (write_word 4192 104)
   = Inr ((), heap_three)"
  by (simp add: model_defs scenario_defs heap_three_def fun_eq_iff)

section \<open>Block lists and rings of links\<close>

lemma layout_le: "layout a bs e \<Longrightarrow> a \<le> e"
proof (induction bs arbitrary: a)
  case Nil
  then show ?case by simp
next
  case (Cons b bs)
  obtain y szy aly where b: "b = (y, szy, aly)" by (cases b)
  with Cons.prems have "layout (a + unat szy) bs e" by simp
  from Cons.IH [OF this] show ?case by simp
qed

lemma layout_append:
  "layout a (xs @ ys) e \<longleftrightarrow> (\<exists>m. layout a xs m \<and> layout m ys e)"
  by (induction xs arbitrary: a) auto

lemma layout_member:
  "layout a bs e \<Longrightarrow> (x, sz, al) \<in> set bs \<Longrightarrow>
   \<exists>xs ys. bs = xs @ (x, sz, al) # ys \<and> layout a xs (unat x) \<and> layout (unat x + unat sz) ys e"
proof (induction bs arbitrary: a)
  case Nil
  then show ?case by simp
next
  case (Cons b bs)
  obtain y szy aly where b: "b = (y, szy, aly)" by (cases b)
  show ?case
  proof (cases "(x, sz, al) = b")
    case True
    with Cons.prems b have "b # bs = [] @ (x, sz, al) # bs \<and> layout a [] (unat x) \<and> layout (unat x + unat sz) bs e"
      by auto
    then show ?thesis by blast
  next
    case False
    with Cons.prems b have mem: "(x, sz, al) \<in> set bs" and lay: "layout (a + unat szy) bs e" and ya: "unat y = a"
      and ok: "8 dvd unat szy" "16 \<le> unat szy"
      by auto
    from Cons.IH [OF lay mem] obtain xs ys where
      "bs = xs @ (x, sz, al) # ys" "layout (a + unat szy) xs (unat x)" "layout (unat x + unat sz) ys e"
      by blast
    with b ya ok have "b # bs = (b # xs) @ (x, sz, al) # ys \<and> layout a (b # xs) (unat x) \<and> layout (unat x + unat sz) ys e"
      by auto
    then show ?thesis by blast
  qed
qed

lemma layout_bounds:
  "layout a bs e \<Longrightarrow> (x, sz, al) \<in> set bs \<Longrightarrow> a \<le> unat x \<and> unat x + unat sz \<le> e \<and> 8 dvd unat sz \<and> 16 \<le> unat sz"
proof (induction bs arbitrary: a)
  case Nil
  then show ?case by simp
next
  case (Cons b bs)
  obtain y szy aly where b: "b = (y, szy, aly)" by (cases b)
  with Cons.prems have lay: "layout (a + unat szy) bs e" and ya: "unat y = a"
    and ok: "8 dvd unat szy" "16 \<le> unat szy" by auto
  show ?case
  proof (cases "(x, sz, al) = b")
    case True
    with b ya ok layout_le [OF lay] show ?thesis by auto
  next
    case False
    with Cons.prems have "(x, sz, al) \<in> set bs" by simp
    from Cons.IH [OF lay this] show ?thesis by simp
  qed
qed

lemma layout_disjoint:
  "layout a bs e \<Longrightarrow> (x, sz, al) \<in> set bs \<Longrightarrow> (y, szy, aly) \<in> set bs \<Longrightarrow>
   (x, sz, al) = (y, szy, aly) \<or> unat x + unat sz \<le> unat y \<or> unat y + unat szy \<le> unat x"
proof (induction bs arbitrary: a)
  case Nil
  then show ?case by simp
next
  case (Cons b bs)
  obtain z szz alz where b: "b = (z, szz, alz)" by (cases b)
  from Cons.prems(1) b have lay: "layout (a + unat szz) bs e" and za: "unat z = a" by auto
  show ?case
  proof (cases "(x, sz, al) \<in> set bs \<and> (y, szy, aly) \<in> set bs")
    case True
    with Cons.IH [OF lay] show ?thesis by blast
  next
    case False
    then consider "(x, sz, al) = b" "(y, szy, aly) = b"
      | "(x, sz, al) = b" "(y, szy, aly) \<in> set bs"
      | "(y, szy, aly) = b" "(x, sz, al) \<in> set bs"
      using Cons.prems(2,3) by auto
    then show ?thesis
    proof cases
      case 1
      then show ?thesis by simp
    next
      case 2
      with layout_bounds [OF lay 2(2)] b za show ?thesis by auto
    next
      case 3
      with layout_bounds [OF lay 3(2)] b za show ?thesis by auto
    qed
  qed
qed

lemma layout_addr_unique:
  "layout a bs e \<Longrightarrow> (x, sz, al) \<in> set bs \<Longrightarrow> (x, sz', al') \<in> set bs \<Longrightarrow> sz = sz' \<and> al = al'"
  using layout_disjoint [of a bs e x sz al x sz' al'] layout_bounds [of a bs e x sz al]
    layout_bounds [of a bs e x sz' al']
  by auto

lemma adj_snoc2: "adj m (xs @ [a, b]) \<longleftrightarrow> adj m (xs @ [a]) \<and> m (a + 8) = b \<and> m (b + 16) = a"
  by (induction m xs rule: adj.induct) auto

lemma adj_frame:
  "\<forall>x \<in> set (butlast xs). x + 8 \<noteq> c \<Longrightarrow> \<forall>y \<in> set (tl xs). y + 16 \<noteq> c \<Longrightarrow>
   adj (m(c := v)) xs = adj m xs"
  by (induction m xs rule: adj.induct) auto

lemma adj_last_first:
  "adj m (x # xs @ [x]) \<Longrightarrow> m (last (x # xs) + 8) = x \<and> m (x + 16) = last (x # xs)"
proof (cases xs rule: rev_cases)
  case Nil
  assume "adj m (x # xs @ [x])"
  with Nil show ?thesis by simp
next
  case (snoc ys y)
  assume "adj m (x # xs @ [x])"
  with snoc have "adj m ((x # ys) @ [y, x])" by simp
  then have "m (y + 8) = x \<and> m (x + 16) = y" unfolding adj_snoc2 by simp
  with snoc show ?thesis by simp
qed

lemma adj_butlast: "adj m (xs @ [a]) \<Longrightarrow> adj m xs"
  by (induction m xs rule: adj.induct) auto

lemma cyc_rotate1: "cyc m (rotate1 L) = cyc m L"
proof (cases L)
  case Nil
  then show ?thesis by simp
next
  case (Cons x xs)
  show ?thesis
  proof (cases xs)
    case Nil
    with Cons show ?thesis by (simp add: cyc_def)
  next
    case (Cons y ys)
    have "adj m ((y # ys) @ [x, y]) \<longleftrightarrow> adj m ((y # ys) @ [x]) \<and> m (x + 8) = y \<and> m (y + 16) = x"
      by (rule adj_snoc2)
    with Cons \<open>L = x # xs\<close> show ?thesis by (auto simp add: cyc_def)
  qed
qed

lemma cyc_rotate: "cyc m (rotate n L) = cyc m L"
  by (induction n) (simp_all add: cyc_rotate1)

lemma cyc_pull:
  assumes d: "distinct (fb # R)" and s: "sep (fb # R)" and c: "cyc m (fb # R)"
  shows "m (fb + 8) = hd (R @ [fb])" and "m (fb + 16) = last (fb # R)"
    and "cyc (m(last (fb # R) + 8 := hd (R @ [fb]), hd (R @ [fb]) + 16 := last (fb # R))) R"
proof -
  from c have a: "adj m (fb # R @ [fb])" by (simp add: cyc_def)
  from adj_last_first [OF a] show "m (fb + 16) = last (fb # R)" by simp
  from a show "m (fb + 8) = hd (R @ [fb])" by (cases R) auto
  show "cyc (m(last (fb # R) + 8 := hd (R @ [fb]), hd (R @ [fb]) + 16 := last (fb # R))) R"
  proof (cases R)
    case Nil
    then show ?thesis by (simp add: cyc_def)
  next
    case (Cons y ys)
    define l where "l = last (y # ys)"
    from a Cons have inner: "adj m (y # ys @ [fb])" by simp
    then have base: "adj m (y # ys)" using adj_butlast [of m "y # ys" fb] by simp
    have lmem: "l \<in> set (y # ys)" unfolding l_def by (rule last_in_set) simp
    from s Cons lmem have ne1: "l + 8 \<noteq> y + 16" by (auto simp: sep_def)
    have f1: "adj (m(l + 8 := y)) (y # ys) = adj m (y # ys)"
    proof (rule adj_frame)
      show "\<forall>x\<in>set (butlast (y # ys)). x + 8 \<noteq> l + 8"
      proof
        fix x assume "x \<in> set (butlast (y # ys))"
        moreover have "distinct (butlast (y # ys) @ [l])" using d Cons unfolding l_def
          by (metis append_butlast_last_id distinct.simps(2) list.distinct(1))
        ultimately show "x + 8 \<noteq> l + 8" by auto
      qed
      show "\<forall>z\<in>set (tl (y # ys)). z + 16 \<noteq> l + 8"
        using s Cons lmem by (auto simp: sep_def)
    qed
    have f2: "adj ((m(l + 8 := y))(y + 16 := l)) (y # ys) = adj (m(l + 8 := y)) (y # ys)"
    proof (rule adj_frame)
      show "\<forall>x\<in>set (butlast (y # ys)). x + 8 \<noteq> y + 16"
        using s Cons by (auto simp: sep_def dest: in_set_butlastD)
      show "\<forall>z\<in>set (tl (y # ys)). z + 16 \<noteq> y + 16"
        using d Cons by auto
    qed
    have "adj ((m(l + 8 := y))(y + 16 := l)) ((y # ys) @ [y])"
    proof (cases ys rule: rev_cases)
      case Nil
      then show ?thesis using ne1 by (simp add: l_def)
    next
      case (snoc zs z)
      then have lz: "l = z" by (simp add: l_def)
      have "adj ((m(l + 8 := y))(y + 16 := l)) ((y # zs) @ [z, y])"
        unfolding adj_snoc2 using f1 f2 base snoc lz ne1 by auto
      with snoc show ?thesis by simp
    qed
    with Cons show ?thesis by (simp add: cyc_def l_def)
  qed
qed

lemma cyc_insert:
  assumes d: "distinct (fb # L)" and s: "sep (fb # L)" and c: "cyc m L" and ne: "L \<noteq> []"
  shows "m (hd L + 16) = last L"
    and "cyc (m(fb + 8 := hd L, fb + 16 := last L, last L + 8 := fb, hd L + 16 := fb)) (fb # L)"
proof -
  obtain x xs where L: "L = x # xs" using ne by (cases L) auto
  from c L have a: "adj m (x # xs @ [x])" by (simp add: cyc_def)
  from adj_last_first [OF a] L show "m (hd L + 16) = last L" by simp
  define l where "l = last (x # xs)"
  define m' where "m' = m(fb + 8 := x, fb + 16 := l, l + 8 := fb, x + 16 := fb)"
  have lmem: "l \<in> set (x # xs)" unfolding l_def by (rule last_in_set) simp
  have base: "adj m (x # xs)" using adj_butlast [of m "x # xs" x] a by simp
  have dl: "distinct (butlast (x # xs) @ [l])" using d L unfolding l_def
    by (metis append_butlast_last_id distinct.simps(2) list.distinct(1))
  have "adj m' (x # xs) = adj m (x # xs)"
    unfolding m'_def
    apply (subst adj_frame)
    subgoal using s L by (auto simp: sep_def dest: in_set_butlastD)
    subgoal using d L by auto
    apply (subst adj_frame)
    subgoal using dl by auto
    subgoal using s L lmem by (auto simp: sep_def)
    apply (subst adj_frame)
    subgoal using s L by (auto simp: sep_def dest: in_set_butlastD)
    subgoal using d L by auto
    apply (subst adj_frame)
    subgoal using d L by (auto dest: in_set_butlastD)
    subgoal using s L by (auto simp: sep_def)
    apply simp
    done
  with base have b': "adj m' (x # xs)" by simp
  have p1: "m' (fb + 8) = x" "m' (x + 16) = fb" "m' (l + 8) = fb" "m' (fb + 16) = l"
    using s d L lmem unfolding m'_def sep_def by auto
  have "adj m' (fb # (x # xs) @ [fb])"
  proof (cases xs rule: rev_cases)
    case Nil
    with p1 show ?thesis by (simp add: l_def)
  next
    case (snoc zs z)
    then have lz: "l = z" by (simp add: l_def)
    have "adj m' ((fb # x # zs) @ [z, fb])"
      unfolding adj_snoc2 using b' snoc p1 lz by auto
    with snoc show ?thesis by simp
  qed
  then show "cyc (m(fb + 8 := hd L, fb + 16 := last L, last L + 8 := fb, hd L + 16 := fb)) (fb # L)"
    using L by (simp add: cyc_def m'_def l_def)
qed

lemma cyc_next:
  "cyc m (xs @ y # z # zs) \<Longrightarrow> m (y + 8) = z"
proof (induction xs)
  case Nil
  then show ?case by (simp add: cyc_def)
next
  case (Cons x xs)
  then have "adj m (x # xs @ y # z # zs @ [x])" by (simp add: cyc_def)
  then have "adj m (xs @ y # z # zs @ [x])" by (cases xs) auto
  then have "adj m (y # z # zs @ [x])" by (induction m xs rule: adj.induct) auto
  then show ?case by simp
qed

lemma cyc_next_last:
  "cyc m (xs @ [y]) \<Longrightarrow> m (y + 8) = hd (xs @ [y])"
proof (cases xs)
  case Nil
  assume "cyc m (xs @ [y])"
  with Nil show ?thesis by (simp add: cyc_def)
next
  case (Cons x xs')
  assume "cyc m (xs @ [y])"
  with Cons have "adj m (x # xs' @ [y] @ [x])" by (simp add: cyc_def)
  from adj_last_first [of m x "xs' @ [y]"] this Cons show ?thesis by simp
qed

section \<open>Words, tags and cells of memory\<close>

lemma rbind_Inr [simp]: "rbind (Inr x) f = f x" by (simp add: rbind_def)

lemma rbind_Inl [simp]: "rbind (Inl e) f = Inl e" by (simp add: rbind_def)

(* --- words --- *)

lemma even_word: "8 dvd unat (sz :: 64 word) \<Longrightarrow> even sz"
  by (metis (no_types, lifting) dvd_trans even_numeral even_of_nat
    mult.right_neutral unsigned_1 word_arith_nat_mult)

lemma bit_m2: "bit (- 2 :: 64 word) n \<longleftrightarrow> n \<noteq> 0 \<and> n < 64"
  by auto

lemma and_m2_even: "even (sz :: 64 word) \<Longrightarrow> sz AND - 2 = sz"
proof (rule bit_eqI)
  fix n assume e: "even sz" and "possible_bit TYPE(64 word) n"
  show "bit (sz AND - 2) n = bit sz n"
  proof (cases "n = 0")
    case True
    with e show ?thesis by (simp add: bit_and_iff bit_0 even_and_iff)
  next
    case False
    then show ?thesis by (auto simp add: bit_and_iff bit_m2 dest: bit_imp_le_length)
  qed
qed

lemma or1_and_m2_even: "even (sz :: 64 word) \<Longrightarrow> (sz OR 1) AND - 2 = sz"
proof (rule bit_eqI)
  fix n assume e: "even sz" and "possible_bit TYPE(64 word) n"
  show "bit ((sz OR 1) AND - 2) n = bit sz n"
  proof (cases "n = 0")
    case True
    with e show ?thesis by (simp add: bit_and_iff bit_or_iff bit_0 even_and_iff)
  next
    case False
    then show ?thesis by (auto simp add: bit_and_iff bit_or_iff bit_m2 bit_1_iff dest: bit_imp_le_length)
  qed
qed

lemma even_and1: "even (sz :: 64 word) \<Longrightarrow> sz AND 1 = 0"
  by (simp add: and_one_eq even_iff_mod_2_eq_zero)

lemma tag_size: "8 dvd unat sz \<Longrightarrow> tag sz al AND - 2 = sz"
  by (simp add: tag_def even_word and_m2_even or1_and_m2_even)

lemma tag_alloc: "8 dvd unat sz \<Longrightarrow> (tag sz al AND 1 \<noteq> 0) = al"
  by (simp add: tag_def even_word even_and1)

lemma unat_lt64: "unat (w :: 64 word) < 18446744073709551616"
  using unsigned_less [of w] by simp

lemma unat_add8: "unat (x :: 64 word) + 8 \<le> unat (e :: 64 word) \<Longrightarrow> unat (x + 8) = unat x + 8"
proof -
  assume a: "unat x + 8 \<le> unat e"
  have "unat (x + 8) = unat x + unat (8 :: 64 word)"
    by (rule unat_add_lem [THEN iffD1]) (use a unat_lt64 [of e] in simp)
  then show ?thesis by simp
qed

lemma unat_add16: "unat (x :: 64 word) + 16 \<le> unat (e :: 64 word) \<Longrightarrow> unat (x + 16) = unat x + 16"
proof -
  assume a: "unat x + 16 \<le> unat e"
  have "unat (x + 16) = unat x + unat (16 :: 64 word)"
    by (rule unat_add_lem [THEN iffD1]) (use a unat_lt64 [of e] in simp)
  then show ?thesis by simp
qed

lemma unat_add_sz:
  "unat (x :: 64 word) + unat sz \<le> unat (e :: 64 word) \<Longrightarrow> unat (x + sz) = unat x + unat sz"
  by (rule unat_add_lem [THEN iffD1]) (use unat_lt64 [of e] in simp)

lemma unat_footer:
  assumes "unat (x :: 64 word) + unat sz \<le> unat (e :: 64 word)" and "8 \<le> unat sz"
  shows "unat (x + sz - 8) = unat x + unat sz - 8"
proof -
  have "(8 :: 64 word) \<le> sz" using assms(2) by (simp add: word_le_nat_alt)
  then have "unat (sz - 8) = unat sz - 8" by (simp add: unat_sub)
  moreover have "unat (x + (sz - 8)) = unat x + unat (sz - 8)"
    by (rule unat_add_lem [THEN iffD1]) (use assms calculation unat_lt64 [of e] in simp)
  moreover have "x + sz - 8 = x + (sz - 8)" by simp
  ultimately show ?thesis using assms(2) by (simp only:)
qed


(* --- memory primitives --- *)

lemma valid_word_upd [simp]:
  "valid_word (s\<lparr>mem := m\<rparr>) a = valid_word s a"
  "valid_word (s\<lparr>flist_first := f\<rparr>) a = valid_word s a"
  "valid_word (s\<lparr>epilogue := e\<rparr>) a = valid_word s a"
  by (simp_all add: valid_word_def)

lemma load_valid: "valid_word s a \<Longrightarrow> load s a = Inr (mem s a)"
  by (simp add: load_def)

lemma store_valid: "valid_word s a \<Longrightarrow> store a v s = Inr (s\<lparr>mem := (mem s)(a := v)\<rparr>)"
  by (simp add: store_def)

lemma block_size_tag:
  "valid_word s x \<Longrightarrow> mem s x = tag sz al \<Longrightarrow> 8 dvd unat sz \<Longrightarrow> block_size s x = Inr sz"
  by (simp add: block_size_def load_valid tag_size)

lemma block_allocated_tag:
  "valid_word s x \<Longrightarrow> mem s x = tag sz al \<Longrightarrow> 8 dvd unat sz \<Longrightarrow> block_allocated s x = Inr al"
  by (simp add: block_allocated_def load_valid tag_alloc)

lemma block_next_tag:
  "valid_word s x \<Longrightarrow> mem s x = tag sz al \<Longrightarrow> 8 dvd unat sz \<Longrightarrow> block_next s x = Inr (x + sz)"
  by (simp add: block_next_def block_size_tag)

lemma set_tags_valid:
  "valid_word s x \<Longrightarrow> valid_word s (x + sz - 8) \<Longrightarrow>
   block_set_size_and_allocated x sz al s
     = Inr (s\<lparr>mem := (mem s)(x := tag sz al, x + sz - 8 := tag sz al)\<rparr>)"
  by (simp add: block_set_size_and_allocated_def store_valid WORD_SIZE_def)

(* --- facts about the blocks of a heap --- *)

lemma layout_aligned:
  "layout a bs e \<Longrightarrow> 8 dvd a \<Longrightarrow> (x, sz, al) \<in> set bs \<Longrightarrow> 8 dvd unat x"
proof (induction bs arbitrary: a)
  case Nil
  then show ?case by simp
next
  case (Cons b bs)
  obtain y szy aly where b: "b = (y, szy, aly)" by (cases b)
  with Cons.prems have lay: "layout (a + unat szy) bs e" and ya: "unat y = a"
    and ok: "8 dvd unat szy" by auto
  show ?case
  proof (cases "(x, sz, al) = b")
    case True
    with b ya Cons.prems(2) show ?thesis by auto
  next
    case False
    with Cons.prems have "(x, sz, al) \<in> set bs" by simp
    moreover have "8 dvd a + unat szy" using Cons.prems(2) ok by simp
    ultimately show ?thesis using Cons.IH [OF lay] by simp
  qed
qed

lemma heap_at_upd [simp]:
  "heap_at (s\<lparr>flist_first := f\<rparr>) blocks e = heap_at s blocks e"
  "heap_at (s\<lparr>epilogue := ep\<rparr>) blocks e = heap_at s blocks e"
  by (simp_all add: heap_at_def)

lemma blk_facts:
  assumes h: "heap_at s blocks e" and b: "(x, sz, al) \<in> set blocks"
  shows "unat (mem_start_brk s) \<le> unat x" "unat x + unat sz \<le> e" "e \<le> unat (mem_brk s)"
    "8 dvd unat x" "8 dvd unat sz" "16 \<le> unat sz"
    "mem s x = tag sz al" "mem s (x + sz - 8) = tag sz al"
proof -
  from h have lay: "layout (unat (mem_start_brk s)) blocks e"
    and al8: "8 dvd unat (mem_start_brk s)" and t: "tags_ok (mem s) blocks"
    and eb: "e \<le> unat (mem_brk s)"
    by (simp_all add: heap_at_def)
  from layout_bounds [OF lay b]
  show "unat (mem_start_brk s) \<le> unat x" "unat x + unat sz \<le> e"
    "8 dvd unat sz" "16 \<le> unat sz" by simp_all
  from eb show "e \<le> unat (mem_brk s)" .
  from layout_aligned [OF lay al8 b] show "8 dvd unat x" .
  from t b show "mem s x = tag sz al" "mem s (x + sz - 8) = tag sz al"
    by (auto simp: tags_ok_def)
qed

lemma blk_valid:
  assumes h: "heap_at s blocks e" and b: "(x, sz, al) \<in> set blocks"
  shows "valid_word s x" "valid_word s (x + sz - 8)"
    "unat (x + sz - 8) = unat x + unat sz - 8" "unat (x + sz) = unat x + unat sz"
proof -
  note f = blk_facts [OF h b]
  show "valid_word s x" using f by (simp add: valid_word_def)
  show u: "unat (x + sz - 8) = unat x + unat sz - 8"
    by (rule unat_footer [of x sz "mem_brk s"]) (use f in simp_all)
  show "valid_word s (x + sz - 8)" using f u by (simp add: valid_word_def)
  show "unat (x + sz) = unat x + unat sz"
    by (rule unat_add_sz [of x sz "mem_brk s"]) (use f in simp)
qed

lemma link_valid:
  assumes h: "heap_at s blocks e" and b: "(x, sz, al) \<in> set blocks" and g: "32 \<le> unat sz"
  shows "valid_word s (x + 8)" "valid_word s (x + 16)"
    "unat (x + 8) = unat x + 8" "unat (x + 16) = unat x + 16"
proof -
  note f = blk_facts [OF h b]
  show u8: "unat (x + 8) = unat x + 8"
    by (rule unat_add8 [of x "mem_brk s"]) (use f g in simp)
  show u16: "unat (x + 16) = unat x + 16"
    by (rule unat_add16 [of x "mem_brk s"]) (use f g in simp)
  show "valid_word s (x + 8)" using f g u8 by (simp add: valid_word_def)
  show "valid_word s (x + 16)" using f g u16 by (simp add: valid_word_def)
qed

lemma neq_unat: "unat (a :: 64 word) \<noteq> unat b \<Longrightarrow> a \<noteq> b"
  by auto

lemma link_not_tag:
  assumes h: "heap_at s blocks e" and b: "(x, sz, al) \<in> set blocks" and gx: "32 \<le> unat sz"
    and c: "(y, szy, aly) \<in> set blocks"
  shows "x + 8 \<noteq> y" "x + 8 \<noteq> y + szy - 8" "x + 16 \<noteq> y" "x + 16 \<noteq> y + szy - 8"
proof -
  from h have lay: "layout (unat (mem_start_brk s)) blocks e"
    by (simp add: heap_at_def)
  note fx = blk_facts [OF h b]
    and lx = link_valid [OF h b gx] and fy = blk_facts [OF h c] and vy = blk_valid [OF h c]
  from layout_disjoint [OF lay b c]
  have d: "(x = y \<and> sz = szy) \<or> unat x + unat sz \<le> unat y \<or> unat y + unat szy \<le> unat x"
    by auto
  have "unat (x + 8) \<noteq> unat y" using d fx gx lx fy by auto
  then show "x + 8 \<noteq> y" by (rule neq_unat)
  have "unat (x + 8) \<noteq> unat (y + szy - 8)" using d fx gx lx fy vy by auto
  then show "x + 8 \<noteq> y + szy - 8" by (rule neq_unat)
  have "unat (x + 16) \<noteq> unat y" using d fx gx lx fy by auto
  then show "x + 16 \<noteq> y" by (rule neq_unat)
  have "unat (x + 16) \<noteq> unat (y + szy - 8)" using d fx gx lx fy vy by auto
  then show "x + 16 \<noteq> y + szy - 8" by (rule neq_unat)
qed

lemma heap_at_link_store:
  assumes h: "heap_at s blocks e" and b: "(x, sz, al) \<in> set blocks" and g: "32 \<le> unat sz"
    and c: "c = x + 8 \<or> c = x + 16"
  shows "heap_at (s\<lparr>mem := (mem s)(c := v)\<rparr>) blocks e"
proof -
  have "tags_ok ((mem s)(c := v)) blocks"
    unfolding tags_ok_def
  proof (intro ballI, clarify)
    fix y szy aly assume m: "(y, szy, aly) \<in> set blocks"
    from link_not_tag [OF h b g m] c have "c \<noteq> y" "c \<noteq> y + szy - 8" by auto
    with blk_facts(7,8) [OF h m]
    show "((mem s)(c := v)) y = tag szy aly \<and> ((mem s)(c := v)) (y + szy - 8) = tag szy aly"
      by simp
  qed
  with h show ?thesis by (simp add: heap_at_def)
qed

lemma big_free_mem:
  "x \<in> set (big_free blocks) \<longleftrightarrow> (\<exists>sz. (x, sz, False) \<in> set blocks \<and> 32 \<le> unat sz)"
  by (auto simp: big_free_def image_iff)

lemma heap_at_sep:
  assumes h: "heap_at s blocks e" and l: "set L \<subseteq> set (big_free blocks)"
  shows "sep L"
  unfolding sep_def
proof (intro ballI)
  fix x y assume "x \<in> set L" "y \<in> set L"
  with l obtain sx sy where bx: "(x, sx, False) \<in> set blocks" and gx: "32 \<le> unat sx"
    and by': "(y, sy, False) \<in> set blocks" and gy: "32 \<le> unat sy"
    unfolding subset_iff big_free_mem by blast
  from h have lay: "layout (unat (mem_start_brk s)) blocks e"
    by (simp add: heap_at_def)
  note lx = link_valid [OF h bx gx] and ly = link_valid [OF h by' gy]
  from layout_disjoint [OF lay bx by']
  have "(x = y \<and> sx = sy) \<or> unat x + unat sx \<le> unat y \<or> unat y + unat sy \<le> unat x"
    by auto
  then have "unat (x + 8) \<noteq> unat (y + 16)" using lx ly gx gy by auto
  then show "x + 8 \<noteq> y + 16" by (rule neq_unat)
qed

section \<open>The free list operations\<close>

lemma frame_refl [simp]: "frame s s"
  by (simp add: frame_def)

lemma frame_trans: "frame s s1 \<Longrightarrow> frame s1 s2 \<Longrightarrow> frame s s2"
  by (simp add: frame_def)

lemma ring_member:
  assumes c: "core s blocks e L" and x: "x \<in> set L"
  shows "\<exists>sz. (x, sz, False) \<in> set blocks \<and> 32 \<le> unat sz"
  using c x unfolding core_def subset_iff big_free_mem by blast

lemma ring_first:
  assumes c: "core s blocks e L"
  shows "flist_first s = NULL \<longleftrightarrow> L = []" "L \<noteq> [] \<Longrightarrow> flist_first s = hd L"
proof -
  from c have r: "ring s L" and n: "NULL \<notin> set L" by (simp_all add: core_def)
  show "L \<noteq> [] \<Longrightarrow> flist_first s = hd L" using r by (cases L) (simp_all add: ring_def)
  show "flist_first s = NULL \<longleftrightarrow> L = []" using r n by (cases L) (auto simp add: ring_def)
qed

lemma pull_ok:
  assumes c: "core s blocks e L" and fb: "fb \<in> set L"
  shows "\<exists>s'. pull_free_block fb s = Inr s' \<and> core s' blocks e (remove1 fb L) \<and> frame s s'"
proof -
  from c have h: "heap_at s blocks e" and r: "ring s L" and d: "distinct L"
    and nn: "NULL \<notin> set L"
    and sub: "set L \<subseteq> set (big_free blocks)" by (simp_all add: core_def)
  from fb obtain xs ys where L: "L = xs @ fb # ys" by (auto simp: in_set_conv_decomp)
  define R where "R = ys @ xs"
  have rot: "rotate (length xs) L = fb # R" using L by (simp add: R_def rotate_append)
  have cy: "cyc (mem s) (fb # R)" using r rot cyc_rotate [of "mem s" "length xs" L]
    by (simp add: ring_def)
  have dR: "distinct (fb # R)" using d L by (auto simp: R_def)
  have setR: "set (fb # R) = set L" using L by (auto simp: R_def)
  have "set (fb # R) \<subseteq> set (big_free blocks)" using setR sub by (simp only:)
  then have sp: "sep (fb # R)" by (rule heap_at_sep [OF h])
  define nxt where "nxt = hd (R @ [fb])"
  define prv where "prv = last (fb # R)"
  note cp = cyc_pull [OF dR sp cy, folded nxt_def prv_def]
  have "nxt \<in> set (fb # R)" unfolding nxt_def by (cases R) auto
  then have nxtL: "nxt \<in> set L" unfolding setR .
  have "prv \<in> set (fb # R)" unfolding prv_def by (rule last_in_set) simp
  then have prvL: "prv \<in> set L" unfolding setR .
  from ring_member [OF c fb] obtain szf where bf: "(fb, szf, False) \<in> set blocks" "32 \<le> unat szf" by blast
  from ring_member [OF c nxtL] obtain szn where bn: "(nxt, szn, False) \<in> set blocks" "32 \<le> unat szn" by blast
  from ring_member [OF c prvL] obtain szp where bp: "(prv, szp, False) \<in> set blocks" "32 \<le> unat szp" by blast
  note vf = link_valid [OF h bf] and vn = link_valid [OF h bn] and vp = link_valid [OF h bp]
  define m' where "m' = (mem s)(prv + 8 := nxt, nxt + 16 := prv)"
  define f' where "f' = (if fb = flist_first s then (if nxt = fb then NULL else nxt) else flist_first s)"
  define s' where "s' = s\<lparr>mem := m', flist_first := f'\<rparr>"
  have ev: "pull_free_block fb s = Inr s'"
    unfolding pull_free_block_def block_next_free_def block_prev_free_def
      block_set_next_free_def block_set_prev_free_def s'_def m'_def f'_def
    using vf vn vp cp(1,2) by (simp add: load_valid store_valid WORD_SIZE_def)
  have h1: "heap_at (s\<lparr>mem := (mem s)(prv + 8 := nxt)\<rparr>) blocks e"
    by (rule heap_at_link_store [OF h bp]) simp
  have "heap_at (s\<lparr>mem := (mem s)(prv + 8 := nxt)\<rparr>\<lparr>mem := (mem (s\<lparr>mem := (mem s)(prv + 8 := nxt)\<rparr>))(nxt + 16 := prv)\<rparr>) blocks e"
    by (rule heap_at_link_store [OF h1 bn]) simp
  then have hk: "heap_at s' blocks e" by (simp add: s'_def m'_def)
  have "cyc m' R" using cp(3) by (simp add: m'_def)
  moreover have "rotate (length ys) R = xs @ ys" by (simp add: R_def rotate_append)
  ultimately have cy': "cyc m' (xs @ ys)" using cyc_rotate [of m' "length ys" R] by simp
  have fst0: "flist_first s = hd (xs @ [fb])" using r L by (cases xs) (simp_all add: ring_def)
  have f'eq: "f' = (case xs @ ys of [] \<Rightarrow> NULL | x # zs \<Rightarrow> x)"
  proof (cases xs)
    case Nil
    then have "fb = flist_first s" using fst0 by simp
    moreover have "nxt = fb \<longleftrightarrow> ys = []" using Nil dR unfolding nxt_def R_def by (cases ys) auto
    moreover have "ys \<noteq> [] \<Longrightarrow> nxt = hd ys" using Nil unfolding nxt_def R_def by (cases ys) auto
    ultimately show ?thesis using Nil by (cases ys) (auto simp: f'_def)
  next
    case (Cons x xs')
    then have "flist_first s = x" using fst0 by simp
    moreover have "fb \<noteq> x" using d L Cons by auto
    ultimately show ?thesis using Cons by (simp add: f'_def)
  qed
  have rm: "remove1 fb L = xs @ ys" using d L by (simp add: remove1_append)
  have "ring s' (xs @ ys)" using cy' f'eq by (simp add: ring_def s'_def)
  moreover have "distinct (xs @ ys)" using d L by auto
  moreover have "set (xs @ ys) \<subseteq> set (big_free blocks)" using sub L by auto
  moreover have "NULL \<notin> set (xs @ ys)" using nn L by auto
  ultimately have "core s' blocks e (remove1 fb L)" using hk rm by (simp add: core_def)
  moreover have "frame s s'" by (simp add: frame_def s'_def)
  ultimately show ?thesis using ev by blast
qed

lemma insert_ok:
  assumes c: "core s blocks e L" and bf: "(fb, szf, False) \<in> set blocks" "32 \<le> unat szf"
    and nl: "fb \<notin> set L" and fn: "fb \<noteq> NULL"
  shows "\<exists>s'. insert_free_block fb s = Inr s' \<and> core s' blocks e (fb # L) \<and> frame s s'"
proof -
  from c have h: "heap_at s blocks e" and r: "ring s L" and d: "distinct L"
    and nn: "NULL \<notin> set L"
    and sub: "set L \<subseteq> set (big_free blocks)" by (simp_all add: core_def)
  note vf = link_valid [OF h bf]
  have sub': "set (fb # L) \<subseteq> set (big_free blocks)" using sub bf by (auto simp: big_free_mem)
  have dn: "distinct (fb # L)" using d nl by simp
  have nn': "NULL \<notin> set (fb # L)" using nn fn by auto
  show ?thesis
  proof (cases L)
    case Nil
    define s' where "s' = s\<lparr>mem := (mem s)(fb + 8 := fb, fb + 16 := fb), flist_first := fb\<rparr>"
    have e: "flist_first s = NULL" using ring_first(1) [OF c] Nil by simp
    have ev: "insert_free_block fb s = Inr s'"
      unfolding insert_free_block_def block_set_next_free_def block_set_prev_free_def s'_def
      using vf e by (simp add: store_valid WORD_SIZE_def)
    have h1: "heap_at (s\<lparr>mem := (mem s)(fb + 8 := fb)\<rparr>) blocks e"
      by (rule heap_at_link_store [OF h bf]) simp
    have "heap_at (s\<lparr>mem := (mem s)(fb + 8 := fb)\<rparr>\<lparr>mem := (mem (s\<lparr>mem := (mem s)(fb + 8 := fb)\<rparr>))(fb + 16 := fb)\<rparr>) blocks e"
      by (rule heap_at_link_store [OF h1 bf]) simp
    then have hk: "heap_at s' blocks e" by (simp add: s'_def)
    have "fb + 8 \<noteq> fb + 16" by simp
    then have "ring s' [fb]" by (simp add: ring_def cyc_def s'_def)
    then have "core s' blocks e (fb # L)" using hk Nil sub' nn' by (simp add: core_def)
    moreover have "frame s s'" by (simp add: frame_def s'_def)
    ultimately show ?thesis using ev by blast
  next
    case (Cons x xs)
    then have ne: "L \<noteq> []" by simp
    have fx: "flist_first s = hd L" using ring_first(2) [OF c ne] .
    have nn0: "flist_first s \<noteq> NULL" using ring_first(1) [OF c] ne by simp
    have cy: "cyc (mem s) L" using r by (simp add: ring_def)
    have sp: "sep (fb # L)" by (rule heap_at_sep [OF h sub'])
    note ci = cyc_insert [OF dn sp cy ne]
    have hL: "hd L \<in> set L" using ne by simp
    have lL: "last L \<in> set L" using ne by simp
    from ring_member [OF c hL] obtain szh where bh: "(hd L, szh, False) \<in> set blocks" "32 \<le> unat szh" by blast
    from ring_member [OF c lL] obtain szl where bl: "(last L, szl, False) \<in> set blocks" "32 \<le> unat szl" by blast
    note vh = link_valid [OF h bh] and vl = link_valid [OF h bl]
    define m' where "m' = (mem s)(fb + 8 := hd L, fb + 16 := last L, last L + 8 := fb, hd L + 16 := fb)"
    define s' where "s' = s\<lparr>mem := m', flist_first := fb\<rparr>"
    have ev: "insert_free_block fb s = Inr s'"
      unfolding insert_free_block_def block_set_next_free_def block_set_prev_free_def
        block_prev_free_def s'_def m'_def
      using vf vh vl nn0 fx ci(1) by (simp add: load_valid store_valid WORD_SIZE_def)
    define s1 where "s1 = s\<lparr>mem := (mem s)(fb + 8 := hd L)\<rparr>"
    define s2 where "s2 = s1\<lparr>mem := (mem s1)(fb + 16 := last L)\<rparr>"
    define s3 where "s3 = s2\<lparr>mem := (mem s2)(last L + 8 := fb)\<rparr>"
    define s4 where "s4 = s3\<lparr>mem := (mem s3)(hd L + 16 := fb)\<rparr>"
    have h1: "heap_at s1 blocks e" unfolding s1_def by (rule heap_at_link_store [OF h bf]) simp
    have h2: "heap_at s2 blocks e" unfolding s2_def by (rule heap_at_link_store [OF h1 bf]) simp
    have h3: "heap_at s3 blocks e" unfolding s3_def by (rule heap_at_link_store [OF h2 bl]) simp
    have h4: "heap_at s4 blocks e" unfolding s4_def by (rule heap_at_link_store [OF h3 bh]) simp
    have "s' = s4\<lparr>flist_first := fb\<rparr>" by (simp add: s'_def s4_def s3_def s2_def s1_def m'_def)
    with h4 have hk: "heap_at s' blocks e" by simp
    have "ring s' (fb # L)" using ci(2) by (simp add: ring_def s'_def m'_def)
    then have "core s' blocks e (fb # L)" using hk dn sub' nn' by (simp add: core_def)
    moreover have "frame s s'" by (simp add: frame_def s'_def)
    ultimately show ?thesis using ev by blast
  qed
qed

section \<open>Rewriting the tags of a block\<close>

lemma layout_fun: "layout a bs e \<Longrightarrow> layout a bs e' \<Longrightarrow> e = e'"
proof (induction bs arbitrary: a)
  case Nil
  then show ?case by simp
next
  case (Cons b bs)
  obtain y szy aly where b: "b = (y, szy, aly)" by (cases b)
  from Cons.prems b have "layout (a + unat szy) bs e" "layout (a + unat szy) bs e'" by auto
  then show ?case by (rule Cons.IH)
qed

lemma adj_cong:
  "\<forall>x \<in> set xs. m' (x + 8) = m (x + 8) \<and> m' (x + 16) = m (x + 16) \<Longrightarrow> adj m' xs = adj m xs"
  by (induction m xs rule: adj.induct) auto

lemma cyc_cong:
  "\<forall>x \<in> set L. m' (x + 8) = m (x + 8) \<and> m' (x + 16) = m (x + 16) \<Longrightarrow> cyc m' L = cyc m L"
  by (cases L) (auto simp: cyc_def intro!: adj_cong)

text \<open>Cells below a prefix of the block list, and at or above the start of a suffix.\<close>

lemma below_prefix:
  assumes h: "heap_at s (pre @ rest) e" and la: "layout (unat (mem_start_brk s)) pre a"
    and b: "(y, sy, ay) \<in> set pre"
  shows "unat y < a" "unat (y + sy - 8) < a"
    "32 \<le> unat sy \<Longrightarrow> unat (y + 8) < a \<and> unat (y + 16) < a"
proof -
  have b': "(y, sy, ay) \<in> set (pre @ rest)" using b by simp
  note f = blk_facts [OF h b'] and v = blk_valid [OF h b'] and lb = layout_bounds [OF la b]
  show "unat y < a" using lb by simp
  show "unat (y + sy - 8) < a" using lb v by auto
  assume g: "32 \<le> unat sy"
  from link_valid [OF h b' g] lb g show "unat (y + 8) < a \<and> unat (y + 16) < a" by simp
qed

lemma above_suffix:
  assumes h: "heap_at s (pre @ post) e" and la: "layout e1 post e"
    and b: "(y, sy, ay) \<in> set post"
  shows "e1 \<le> unat y" "e1 \<le> unat (y + sy - 8)"
    "32 \<le> unat sy \<Longrightarrow> e1 \<le> unat (y + 8) \<and> e1 \<le> unat (y + 16)"
proof -
  have b': "(y, sy, ay) \<in> set (pre @ post)" using b by simp
  note f = blk_facts [OF h b'] and v = blk_valid [OF h b'] and lb = layout_bounds [OF la b]
  show "e1 \<le> unat y" using lb by simp
  show "e1 \<le> unat (y + sy - 8)" using lb v by auto
  assume g: "32 \<le> unat sy"
  from link_valid [OF h b' g] lb g show "e1 \<le> unat (y + 8) \<and> e1 \<le> unat (y + 16)" by simp
qed

lemma retag:
  assumes c: "core s (pre @ mid @ post) e L"
    and la: "layout (unat (mem_start_brk s)) pre a" and lm: "layout a mid e1"
    and lm': "layout a mid' e1"
    and t': "tags_ok m' mid'"
    and fr: "\<And>c. unat c < a \<or> e1 \<le> unat c \<Longrightarrow> m' c = mem s c"
    and Lm: "set L \<inter> fst ` set mid = {}"
  shows "core (s\<lparr>mem := m'\<rparr>) (pre @ mid' @ post) e L"
proof -
  from c have h: "heap_at s (pre @ mid @ post) e" and r: "ring s L" and d: "distinct L"
    and nn: "NULL \<notin> set L"
    and sub: "set L \<subseteq> set (big_free (pre @ mid @ post))" by (simp_all add: core_def)
  from h have lay: "layout (unat (mem_start_brk s)) (pre @ mid @ post) e"
    and al8: "8 dvd unat (mem_start_brk s)" and eb: "e \<le> unat (mem_brk s)"
    by (simp_all add: heap_at_def)
  from lay obtain a' e1' where l1: "layout (unat (mem_start_brk s)) pre a'"
    and l2: "layout a' mid e1'" and l3: "layout e1' post e"
    unfolding layout_append by blast
  from layout_fun [OF la l1] have a': "a' = a" by simp
  with l2 layout_fun [OF lm, of e1'] have e1': "e1' = e1" by simp
  from l3 e1' have lp: "layout e1 post e" by simp
  have h2: "heap_at s ((pre @ mid) @ post) e" using h by simp
  have lay': "layout (unat (mem_start_brk s)) (pre @ mid' @ post) e"
    unfolding layout_append using la lm' lp by blast
  have tg: "tags_ok m' (pre @ mid' @ post)"
    unfolding tags_ok_def
  proof (intro ballI, clarify)
    fix y sy ay assume m: "(y, sy, ay) \<in> set (pre @ mid' @ post)"
    then consider "(y, sy, ay) \<in> set pre" | "(y, sy, ay) \<in> set mid'" | "(y, sy, ay) \<in> set post"
      by auto
    then show "m' y = tag sy ay \<and> m' (y + sy - 8) = tag sy ay"
    proof cases
      case 1
      from below_prefix(1,2) [OF h la 1] fr have "m' y = mem s y" "m' (y + sy - 8) = mem s (y + sy - 8)"
        by simp_all
      moreover have "(y, sy, ay) \<in> set (pre @ mid @ post)" using 1 by simp
      ultimately show ?thesis using blk_facts(7,8) [OF h] by simp
    next
      case 2
      with t' show ?thesis by (auto simp: tags_ok_def)
    next
      case 3
      from above_suffix(1,2) [OF h2 lp 3] fr have "m' y = mem s y" "m' (y + sy - 8) = mem s (y + sy - 8)"
        by simp_all
      moreover have "(y, sy, ay) \<in> set (pre @ mid @ post)" using 3 by simp
      ultimately show ?thesis using blk_facts(7,8) [OF h] by simp
    qed
  qed
  have hk: "heap_at (s\<lparr>mem := m'\<rparr>) (pre @ mid' @ post) e"
    using lay' tg al8 eb by (simp add: heap_at_def)
  have keep: "\<forall>x \<in> set L. (\<exists>sz. ((x, sz, False) \<in> set pre \<or> (x, sz, False) \<in> set post) \<and> 32 \<le> unat sz)"
  proof
    fix x assume x: "x \<in> set L"
    with sub obtain sz where b: "(x, sz, False) \<in> set (pre @ mid @ post)" and g: "32 \<le> unat sz"
      unfolding subset_iff big_free_mem by blast
    from x Lm have "(x, sz, False) \<notin> set mid" by (force simp: image_iff)
    with b g show "\<exists>sz. ((x, sz, False) \<in> set pre \<or> (x, sz, False) \<in> set post) \<and> 32 \<le> unat sz"
      by auto
  qed
  have "\<forall>x \<in> set L. m' (x + 8) = mem s (x + 8) \<and> m' (x + 16) = mem s (x + 16)"
  proof
    fix x assume "x \<in> set L"
    with keep obtain sz where b: "(x, sz, False) \<in> set pre \<or> (x, sz, False) \<in> set post"
      and g: "32 \<le> unat sz" by blast
    from b show "m' (x + 8) = mem s (x + 8) \<and> m' (x + 16) = mem s (x + 16)"
    proof
      assume "(x, sz, False) \<in> set pre"
      from below_prefix(3) [OF h la this g] fr show ?thesis by simp
    next
      assume "(x, sz, False) \<in> set post"
      from above_suffix(3) [OF h2 lp this g] fr show ?thesis by simp
    qed
  qed
  then have "cyc m' L = cyc (mem s) L" by (rule cyc_cong)
  with r have rk: "ring (s\<lparr>mem := m'\<rparr>) L" by (simp add: ring_def)
  have "set L \<subseteq> set (big_free (pre @ mid' @ post))"
    unfolding subset_iff big_free_mem using keep by auto
  with hk rk d nn show ?thesis by (simp add: core_def)
qed

lemma retag_end:
  assumes c: "core s (pre @ mid) e L"
    and la: "layout (unat (mem_start_brk s)) pre a"
    and lm': "layout a mid' e'" and eb': "e' \<le> unat brk'"
    and t': "tags_ok m' mid'"
    and fr: "\<And>c. unat c < a \<Longrightarrow> m' c = mem s c"
    and Lm: "set L \<inter> fst ` set mid = {}"
  shows "core (s\<lparr>mem := m', mem_brk := brk'\<rparr>) (pre @ mid') e' L"
proof -
  from c have h: "heap_at s (pre @ mid) e" and r: "ring s L" and d: "distinct L"
    and nn: "NULL \<notin> set L"
    and sub: "set L \<subseteq> set (big_free (pre @ mid))" by (simp_all add: core_def)
  from h have al8: "8 dvd unat (mem_start_brk s)" by (simp add: heap_at_def)
  have lay': "layout (unat (mem_start_brk s)) (pre @ mid') e'"
    unfolding layout_append using la lm' by blast
  have tg: "tags_ok m' (pre @ mid')"
    unfolding tags_ok_def
  proof (intro ballI, clarify)
    fix y sy ay assume m: "(y, sy, ay) \<in> set (pre @ mid')"
    then consider "(y, sy, ay) \<in> set pre" | "(y, sy, ay) \<in> set mid'" by auto
    then show "m' y = tag sy ay \<and> m' (y + sy - 8) = tag sy ay"
    proof cases
      case 1
      from below_prefix(1,2) [OF h la 1] fr have "m' y = mem s y" "m' (y + sy - 8) = mem s (y + sy - 8)"
        by simp_all
      moreover have "(y, sy, ay) \<in> set (pre @ mid)" using 1 by simp
      ultimately show ?thesis using blk_facts(7,8) [OF h] by simp
    next
      case 2
      with t' show ?thesis by (auto simp: tags_ok_def)
    qed
  qed
  have hk: "heap_at (s\<lparr>mem := m', mem_brk := brk'\<rparr>) (pre @ mid') e'"
    using lay' tg al8 eb' by (simp add: heap_at_def)
  have keep: "\<forall>x \<in> set L. (\<exists>sz. (x, sz, False) \<in> set pre \<and> 32 \<le> unat sz)"
  proof
    fix x assume x: "x \<in> set L"
    with sub obtain sz where b: "(x, sz, False) \<in> set (pre @ mid)" and g: "32 \<le> unat sz"
      unfolding subset_iff big_free_mem by blast
    from x Lm have "(x, sz, False) \<notin> set mid" by (force simp: image_iff)
    with b g show "\<exists>sz. (x, sz, False) \<in> set pre \<and> 32 \<le> unat sz" by auto
  qed
  have "\<forall>x \<in> set L. m' (x + 8) = mem s (x + 8) \<and> m' (x + 16) = mem s (x + 16)"
  proof
    fix x assume "x \<in> set L"
    with keep obtain sz where b: "(x, sz, False) \<in> set pre" and g: "32 \<le> unat sz" by blast
    from below_prefix(3) [OF h la b g] fr
    show "m' (x + 8) = mem s (x + 8) \<and> m' (x + 16) = mem s (x + 16)" by simp
  qed
  then have "cyc m' L = cyc (mem s) L" by (rule cyc_cong)
  with r have rk: "ring (s\<lparr>mem := m', mem_brk := brk'\<rparr>) L" by (simp add: ring_def)
  have "set L \<subseteq> set (big_free (pre @ mid'))"
    unfolding subset_iff big_free_mem using keep by auto
  with hk rk d nn show ?thesis by (simp add: core_def)
qed

lemma consistent_core:
  "consistent s bs L \<Longrightarrow> core s (all_blocks s bs) (unat (mem_brk s)) L"
  by (simp add: consistent_def)

lemma consistent_heap:
  "consistent s bs L \<Longrightarrow> heap_at s (all_blocks s bs) (unat (mem_brk s))"
  by (simp add: consistent_def core_def)

lemma in_all_blocks: "b \<in> set bs \<Longrightarrow> b \<in> set (all_blocks s bs)"
  by (simp add: all_blocks_def)

lemma consistent_big: "consistent s bs L \<Longrightarrow> (x, sz, al) \<in> set bs \<Longrightarrow> 32 \<le> unat sz"
  by (auto simp: consistent_def)

lemma all_blocks_frame: "frame s s' \<Longrightarrow> all_blocks s' bs = all_blocks s bs"
  by (simp add: all_blocks_def frame_def)

lemma sentinels:
  assumes c: "consistent s bs L"
  shows "prologue s = mem_start_brk s" "unat (epilogue s) + 16 = unat (mem_brk s)"
    "layout (unat (mem_start_brk s) + 16) bs (unat (epilogue s))"
proof -
  from consistent_heap [OF c]
  have lay: "layout (unat (mem_start_brk s)) (all_blocks s bs) (unat (mem_brk s))"
    by (simp add: heap_at_def)
  then have p: "unat (prologue s) = unat (mem_start_brk s)"
    and l2: "layout (unat (mem_start_brk s) + 16) (bs @ [(epilogue s, 16, True)]) (unat (mem_brk s))"
    by (simp_all add: all_blocks_def)
  from p show "prologue s = mem_start_brk s" by (simp add: word_unat_eq_iff)
  from l2 obtain m where l3: "layout (unat (mem_start_brk s) + 16) bs m"
    and l4: "layout m [(epilogue s, 16, True)] (unat (mem_brk s))"
    unfolding layout_append by blast
  from l4 have me: "m = unat (epilogue s)" and e: "unat (epilogue s) + 16 = unat (mem_brk s)" by auto
  from e show "unat (epilogue s) + 16 = unat (mem_brk s)" .
  from l3 me show "layout (unat (mem_start_brk s) + 16) bs (unat (epilogue s))" by simp
qed

lemma interior_bounds:
  assumes c: "consistent s bs L" and b: "(x, sz, al) \<in> set bs"
  shows "unat (mem_start_brk s) + 16 \<le> unat x" "unat x + unat sz \<le> unat (epilogue s)" "x \<noteq> NULL"
proof -
  from layout_bounds [OF sentinels(3) [OF c] b]
  show "unat (mem_start_brk s) + 16 \<le> unat x" "unat x + unat sz \<le> unat (epilogue s)" by simp_all
  then have "unat x \<noteq> 0" by simp
  then show "x \<noteq> NULL" by (auto simp: NULL_def)
qed

lemma ring_block:
  assumes c: "consistent s bs L" and x: "x \<in> set L"
  shows "\<exists>sz. (x, sz, False) \<in> set bs"
proof -
  from ring_member [OF consistent_core [OF c] x] obtain sz where
    "(x, sz, False) \<in> set (all_blocks s bs)" by blast
  then show ?thesis by (auto simp: all_blocks_def)
qed

lemma consistentI:
  assumes "core s' (all_blocks s bs) (unat (mem_brk s)) L" and "frame s s'"
    and "\<forall>(x, sz, al) \<in> set bs. 32 \<le> unat sz"
  shows "consistent s' bs L"
  using assms by (simp add: consistent_def all_blocks_def frame_def)

lemma pull_consistent:
  assumes c: "consistent s bs L" and fb: "fb \<in> set L"
  shows "\<exists>s'. pull_free_block fb s = Inr s' \<and> consistent s' bs (remove1 fb L) \<and> frame s s'"
proof -
  from pull_ok [OF consistent_core [OF c] fb] obtain s' where
    "pull_free_block fb s = Inr s'" "core s' (all_blocks s bs) (unat (mem_brk s)) (remove1 fb L)"
    "frame s s'" by blast
  moreover from c have "\<forall>(x, sz, al) \<in> set bs. 32 \<le> unat sz" by (simp add: consistent_def)
  ultimately show ?thesis using consistentI by blast
qed

lemma insert_consistent:
  assumes c: "consistent s bs L" and b: "(fb, sz, False) \<in> set bs" and nl: "fb \<notin> set L"
  shows "\<exists>s'. insert_free_block fb s = Inr s' \<and> consistent s' bs (fb # L) \<and> frame s s'"
proof -
  note g = consistent_big [OF c b] and n = interior_bounds(3) [OF c b]
  from insert_ok [OF consistent_core [OF c] in_all_blocks [OF b] g nl n] obtain s' where
    "insert_free_block fb s = Inr s'" "core s' (all_blocks s bs) (unat (mem_brk s)) (fb # L)"
    "frame s s'" by blast
  moreover from c have "\<forall>(x, sz, al) \<in> set bs. 32 \<le> unat sz" by (simp add: consistent_def)
  ultimately show ?thesis using consistentI by blast
qed

text \<open>Reading the tags of a block of the heap.\<close>

lemma read_block:
  assumes c: "consistent s bs L" and b: "(x, sz, al) \<in> set (all_blocks s bs)"
  shows "block_size s x = Inr sz" "block_allocated s x = Inr al" "block_next s x = Inr (x + sz)"
proof -
  note h = consistent_heap [OF c]
  note f = blk_facts [OF h b] and v = blk_valid [OF h b]
  show "block_size s x = Inr sz" using f v by (simp add: block_size_tag)
  show "block_allocated s x = Inr al" using f v by (simp add: block_allocated_tag)
  show "block_next s x = Inr (x + sz)" using f v by (simp add: block_next_tag)
qed

lemma layout_next:
  assumes "layout a (xs @ (x, sz, al) # (y, sy, ay) # ys) e" and "e \<le> unat (brk :: 64 word)"
  shows "x + sz = y"
proof -
  from assms(1) obtain m where "layout m ((x, sz, al) # (y, sy, ay) # ys) e"
    unfolding layout_append by blast
  then have u: "unat y = unat x + unat sz" and l: "layout (unat y + unat sy) ys e" by auto
  from layout_le [OF l] assms(2) u have "unat x + unat sz \<le> unat brk" by simp
  from unat_add_sz [OF this] u show ?thesis by (simp add: word_unat_eq_iff)
qed

lemma split_blocks:
  "all_blocks s (xs @ b # ys) = ((prologue s, 16, True) # xs) @ [b] @ (ys @ [(epilogue s, 16, True)])"
  by (simp add: all_blocks_def)

lemma split_layout:
  assumes c: "consistent s (xs @ (x, sz, al) # ys) L"
  shows "layout (unat (mem_start_brk s)) ((prologue s, 16, True) # xs) (unat x)"
    "layout (unat x) [(x, sz, al)] (unat x + unat sz)"
    "unat x + unat sz \<le> unat (epilogue s)"
    "8 dvd unat x" "8 dvd unat sz" "32 \<le> unat sz"
proof -
  note h = consistent_heap [OF c]
  have b: "(x, sz, al) \<in> set (xs @ (x, sz, al) # ys)" by simp
  note f = blk_facts [OF h in_all_blocks [OF b]]
  from h have "layout (unat (mem_start_brk s)) (((prologue s, 16, True) # xs) @ [(x, sz, al)] @ (ys @ [(epilogue s, 16, True)])) (unat (mem_brk s))"
    by (simp add: heap_at_def all_blocks_def)
  then obtain a e1 where l1: "layout (unat (mem_start_brk s)) ((prologue s, 16, True) # xs) a"
    and l2: "layout a [(x, sz, al)] e1" unfolding layout_append by blast
  from l2 have "a = unat x" by simp
  with l1 show "layout (unat (mem_start_brk s)) ((prologue s, 16, True) # xs) (unat x)" by simp
  show "layout (unat x) [(x, sz, al)] (unat x + unat sz)" using f by simp
  show "unat x + unat sz \<le> unat (epilogue s)" using interior_bounds(2) [OF c b] .
  show "8 dvd unat x" "8 dvd unat sz" using f by simp_all
  show "32 \<le> unat sz" using consistent_big [OF c b] .
qed

lemma layout_start_fun:
  "layout a mid e \<Longrightarrow> layout a' mid e' \<Longrightarrow> mid \<noteq> [] \<Longrightarrow> a = a'"
  by (cases mid) auto

lemma retag_consistent:
  assumes c: "consistent s (xs @ mid @ ys) L"
    and lm: "layout a mid e1" and ne: "mid \<noteq> []"
    and lm': "layout a mid' e1"
    and t': "tags_ok m' mid'"
    and g': "\<forall>(y, sy, ay) \<in> set mid'. 32 \<le> unat sy"
    and fr: "\<And>c. unat c < a \<or> e1 \<le> unat c \<Longrightarrow> m' c = mem s c"
    and Lm: "set L \<inter> fst ` set mid = {}"
  shows "consistent (s\<lparr>mem := m'\<rparr>) (xs @ mid' @ ys) L"
proof -
  have c': "core s (((prologue s, 16, True) # xs) @ mid @ (ys @ [(epilogue s, 16, True)])) (unat (mem_brk s)) L"
    using consistent_core [OF c] by (simp add: all_blocks_def)
  then have "layout (unat (mem_start_brk s)) (((prologue s, 16, True) # xs) @ mid @ (ys @ [(epilogue s, 16, True)])) (unat (mem_brk s))"
    by (simp add: core_def heap_at_def)
  then obtain a' e1' where l1: "layout (unat (mem_start_brk s)) ((prologue s, 16, True) # xs) a'"
    and l2: "layout a' mid e1'" unfolding layout_append by blast
  from layout_start_fun [OF lm l2 ne] l1
  have la: "layout (unat (mem_start_brk s)) ((prologue s, 16, True) # xs) a" by simp
  from retag [OF c' la lm lm' t' fr Lm]
  have "core (s\<lparr>mem := m'\<rparr>) (all_blocks s (xs @ mid' @ ys)) (unat (mem_brk s)) L"
    by (simp add: all_blocks_def)
  moreover have "\<forall>(y, sy, ay) \<in> set (xs @ mid' @ ys). 32 \<le> unat sy"
    using c g' by (fastforce simp: consistent_def)
  ultimately show ?thesis by (simp add: consistent_def all_blocks_def)
qed

lemma frame_mem [simp]: "frame s (s\<lparr>mem := m\<rparr>)"
  by (simp add: frame_def)

lemma set_allocated_consistent:
  assumes c: "consistent s (xs @ (x, sz, al) # ys) L" and nl: "x \<notin> set L"
  shows "\<exists>s'. block_set_allocated x al' s = Inr s' \<and> consistent s' (xs @ (x, sz, al') # ys) L
           \<and> frame s s' \<and> flist_first s' = flist_first s"
proof -
  note h = consistent_heap [OF c]
  have b: "(x, sz, al) \<in> set (all_blocks s (xs @ (x, sz, al) # ys))" by (simp add: all_blocks_def)
  note f = blk_facts [OF h b] and v = blk_valid [OF h b] and rd = read_block [OF c b]
  define m' where "m' = (mem s)(x := tag sz al', x + sz - 8 := tag sz al')"
  have ev: "block_set_allocated x al' s = Inr (s\<lparr>mem := m'\<rparr>)"
    unfolding block_set_allocated_def m'_def using rd v by (simp add: set_tags_valid)
  have lm: "layout (unat x) [(x, sz, al)] (unat x + unat sz)" using f by simp
  have lm': "layout (unat x) [(x, sz, al')] (unat x + unat sz)" using f by simp
  have t': "tags_ok m' [(x, sz, al')]" by (simp add: tags_ok_def m'_def)
  have g': "\<forall>(y, sy, ay) \<in> set [(x, sz, al')]. 32 \<le> unat sy"
    using split_layout(6) [OF c] by simp
  have fr: "m' c = mem s c" if "unat c < unat x \<or> unat x + unat sz \<le> unat c" for c
  proof -
    from that f v have "unat c \<noteq> unat x" "unat c \<noteq> unat (x + sz - 8)" by auto
    then have "c \<noteq> x" "c \<noteq> x + sz - 8" by auto
    then show ?thesis by (simp add: m'_def)
  qed
  have Lm: "set L \<inter> fst ` set [(x, sz, al)] = {}" using nl by simp
  have c0: "consistent s (xs @ [(x, sz, al)] @ ys) L" using c by simp
  from retag_consistent [OF c0 lm _ lm' t' g' fr Lm]
  have "consistent (s\<lparr>mem := m'\<rparr>) (xs @ (x, sz, al') # ys) L" by simp
  with ev show ?thesis by auto
qed

lemma merge_consistent:
  assumes c: "consistent s (xs @ (x, sz1, al1) # (y, sz2, al2) # ys) L"
    and nlx: "x \<notin> set L" and nly: "y \<notin> set L"
  shows "\<exists>s'. block_set_size x (sz1 + sz2) s = Inr s'
           \<and> consistent s' (xs @ (x, sz1 + sz2, al1) # ys) L \<and> frame s s'
           \<and> flist_first s' = flist_first s"
proof -
  note h = consistent_heap [OF c]
  have bx: "(x, sz1, al1) \<in> set (all_blocks s (xs @ (x, sz1, al1) # (y, sz2, al2) # ys))"
    and by': "(y, sz2, al2) \<in> set (all_blocks s (xs @ (x, sz1, al1) # (y, sz2, al2) # ys))"
    by (simp_all add: all_blocks_def)
  note fx = blk_facts [OF h bx] and vx = blk_valid [OF h bx] and rd = read_block [OF c bx]
    and fy = blk_facts [OF h by'] and vy = blk_valid [OF h by']
  from h have "layout (unat (mem_start_brk s))
      (((prologue s, 16, True) # xs) @ (x, sz1, al1) # (y, sz2, al2) # (ys @ [(epilogue s, 16, True)]))
      (unat (mem_brk s))"
    by (simp add: heap_at_def all_blocks_def)
  from layout_next [OF this order_refl] have xy: "x + sz1 = y" .
  then have uy: "unat y = unat x + unat sz1" using vx by simp
  have us: "unat (sz1 + sz2) = unat sz1 + unat sz2"
    by (rule unat_add_sz [of sz1 sz2 "mem_brk s"]) (use fy uy in simp)
  have foot: "x + (sz1 + sz2) - 8 = y + sz2 - 8" using xy by (simp add: algebra_simps)
  define m' where "m' = (mem s)(x := tag (sz1 + sz2) al1, y + sz2 - 8 := tag (sz1 + sz2) al1)"
  have vfoot: "valid_word s (x + (sz1 + sz2) - 8)" using vy(2) by (simp only: foot)
  have "block_set_size_and_allocated x (sz1 + sz2) al1 s = Inr (s\<lparr>mem := m'\<rparr>)"
    unfolding m'_def foot [symmetric] by (rule set_tags_valid [OF vx(1) vfoot])
  then have ev: "block_set_size x (sz1 + sz2) s = Inr (s\<lparr>mem := m'\<rparr>)"
    unfolding block_set_size_def using rd(2) by simp
  have lm: "layout (unat x) [(x, sz1, al1), (y, sz2, al2)] (unat x + unat sz1 + unat sz2)"
    using fx fy uy by simp
  have lm': "layout (unat x) [(x, sz1 + sz2, al1)] (unat x + unat sz1 + unat sz2)"
    using fx fy us by simp
  have t': "tags_ok m' [(x, sz1 + sz2, al1)]" using foot by (simp add: tags_ok_def m'_def)
  have g': "\<forall>(z, sy, ay) \<in> set [(x, sz1 + sz2, al1)]. 32 \<le> unat sy"
    using us fx fy by simp
  have fr: "m' c = mem s c" if "unat c < unat x \<or> unat x + unat sz1 + unat sz2 \<le> unat c" for c
  proof -
    from that fx fy vy uy have "unat c \<noteq> unat x" "unat c \<noteq> unat (y + sz2 - 8)" by auto
    then have "c \<noteq> x" "c \<noteq> y + sz2 - 8" by auto
    then show ?thesis by (simp add: m'_def)
  qed
  have Lm: "set L \<inter> fst ` set [(x, sz1, al1), (y, sz2, al2)] = {}" using nlx nly by simp
  have c0: "consistent s (xs @ [(x, sz1, al1), (y, sz2, al2)] @ ys) L" using c by simp
  from retag_consistent [OF c0 lm _ lm' t' g' fr Lm]
  have "consistent (s\<lparr>mem := m'\<rparr>) (xs @ (x, sz1 + sz2, al1) # ys) L" by simp
  with ev show ?thesis by auto
qed

lemma split_consistent:
  assumes c: "consistent s (xs @ (x, sz, al) # ys) L" and nl: "x \<notin> set L"
    and r8: "8 dvd unat r" and r32: "32 \<le> unat r" and rs: "unat r + 32 \<le> unat sz"
  shows "\<exists>s2 s3. block_set_size_and_allocated x r True s = Inr s2
           \<and> block_next s2 x = Inr (x + r)
           \<and> block_set_size_and_allocated (x + r) (sz - r) False s2 = Inr s3
           \<and> consistent s3 (xs @ (x, r, True) # (x + r, sz - r, False) # ys) L
           \<and> frame s s3 \<and> flist_first s2 = flist_first s \<and> flist_first s3 = flist_first s"
proof -
  note h = consistent_heap [OF c]
  have b: "(x, sz, al) \<in> set (all_blocks s (xs @ (x, sz, al) # ys))" by (simp add: all_blocks_def)
  note f = blk_facts [OF h b] and v = blk_valid [OF h b]
  have xr: "unat x + unat r \<le> unat (mem_brk s)" using f rs by simp
  have u1: "unat (x + r - 8) = unat x + unat r - 8"
    by (rule unat_footer [OF xr]) (use r32 in simp)
  have u2: "unat (x + r) = unat x + unat r" by (rule unat_add_sz [OF xr])
  have "r \<le> sz" using rs by (simp add: word_le_nat_alt)
  then have u3: "unat (sz - r) = unat sz - unat r" by (simp add: unat_sub)
  have foot: "x + r + (sz - r) - 8 = x + sz - 8" by simp
  have v1: "valid_word s (x + r - 8)" using f u1 r8 r32 rs by (simp add: valid_word_def)
  have v2: "valid_word s (x + r)" using f u2 r8 r32 rs by (simp add: valid_word_def)
  have ne: "x \<noteq> x + r - 8" "x \<noteq> x + r" "x \<noteq> x + sz - 8" "x + r - 8 \<noteq> x + r"
    "x + r - 8 \<noteq> x + sz - 8" "x + r \<noteq> x + sz - 8"
    by (rule neq_unat, use u1 u2 v(3) r32 rs in simp)+
  define m2 where "m2 = (mem s)(x := tag r True, x + r - 8 := tag r True)"
  define m3 where "m3 = m2(x + r := tag (sz - r) False, x + sz - 8 := tag (sz - r) False)"
  have e1: "block_set_size_and_allocated x r True s = Inr (s\<lparr>mem := m2\<rparr>)"
    unfolding m2_def using v v1 by (simp add: set_tags_valid)
  have "mem (s\<lparr>mem := m2\<rparr>) x = tag r True" using ne by (simp add: m2_def)
  then have e2: "block_next (s\<lparr>mem := m2\<rparr>) x = Inr (x + r)"
    using v r8 by (simp add: block_next_tag)
  have e3: "block_set_size_and_allocated (x + r) (sz - r) False (s\<lparr>mem := m2\<rparr>) = Inr (s\<lparr>mem := m3\<rparr>)"
    unfolding m3_def using v v2 foot by (simp add: set_tags_valid)
  have lm: "layout (unat x) [(x, sz, al)] (unat x + unat sz)" using f by simp
  have lm': "layout (unat x) [(x, r, True), (x + r, sz - r, False)] (unat x + unat sz)"
    using f r8 r32 rs u2 u3 by simp
  have t': "tags_ok m3 [(x, r, True), (x + r, sz - r, False)]"
    using ne foot by (simp add: tags_ok_def m3_def m2_def)
  have g': "\<forall>(z, sy, ay) \<in> set [(x, r, True), (x + r, sz - r, False)]. 32 \<le> unat sy"
    using r32 rs u3 by simp
  have fr: "m3 c = mem s c" if "unat c < unat x \<or> unat x + unat sz \<le> unat c" for c
  proof -
    from that f v u1 u2 r32 rs
    have "unat c \<noteq> unat x" "unat c \<noteq> unat (x + r - 8)" "unat c \<noteq> unat (x + r)"
      "unat c \<noteq> unat (x + sz - 8)" by auto
    then have "c \<noteq> x" "c \<noteq> x + r - 8" "c \<noteq> x + r" "c \<noteq> x + sz - 8" by auto
    then show ?thesis by (simp add: m3_def m2_def)
  qed
  have Lm: "set L \<inter> fst ` set [(x, sz, al)] = {}" using nl by simp
  have c0: "consistent s (xs @ [(x, sz, al)] @ ys) L" using c by simp
  from retag_consistent [OF c0 lm _ lm' t' g' fr Lm]
  have "consistent (s\<lparr>mem := m3\<rparr>) (xs @ (x, r, True) # (x + r, sz - r, False) # ys) L" by simp
  with e1 e2 e3 show ?thesis by auto
qed

section \<open>Alignment and the sizes the allocator computes\<close>

lemma int_negative_bit: "int_negative w \<longleftrightarrow> bit w 31"
proof -
  have "sint (ucast w :: 32 word) < 0 \<longleftrightarrow> bit (ucast w :: 32 word) (LENGTH(32) - Suc 0)"
    by (rule bit_last_iff [symmetric])
  then show ?thesis by (simp add: int_negative_def bit_ucast_iff)
qed

lemma not_bit31_le:
  assumes "\<not> bit (w :: 64 word) 31"
  shows "unat w \<le> 18446744071562067967"
proof -
  have b: "bit (NOT (push_bit 31 (1 :: 64 word))) n \<longleftrightarrow> n < 64 \<and> n \<noteq> 31" for n
    unfolding bit_not_iff bit_push_bit_iff bit_1_iff by auto
  have "w = w AND NOT (push_bit 31 1)"
  proof (rule bit_eqI)
    fix n assume "possible_bit TYPE(64 word) n"
    show "bit w n = bit (w AND NOT (push_bit 31 1)) n"
      unfolding bit_and_iff b using assms by (auto dest: bit_imp_le_length)
  qed
  then have "w \<le> NOT (push_bit 31 1)" by (metis word_and_le1)
  then have "unat w \<le> unat (NOT (push_bit 31 1) :: 64 word)" by (simp only: word_le_nat_alt)
  then show ?thesis by simp
qed

lemma not_negative_bound: "\<not> int_negative w \<Longrightarrow> unat w \<le> 18446744071562067967"
  by (simp add: int_negative_bit not_bit31_le)

lemma m8: "(- 8 :: 64 word) = NOT (mask 3)"
  by (simp add: mask_eq_exp_minus_1)

lemma bit_m8: "bit (- 8 :: 64 word) n \<longleftrightarrow> 3 \<le> n \<and> n < 64"
  unfolding m8 bit_not_iff bit_mask_iff by auto

lemma bit_and_m8: "bit ((w :: 64 word) AND - 8) n \<longleftrightarrow> 3 \<le> n \<and> bit w n"
  apply (simp only: bit_and_iff bit_m8)
  apply (auto dest: bit_imp_le_length)
  done

lemma and_m8_push: "(w :: 64 word) AND - 8 = push_bit 3 (drop_bit 3 w)"
  apply (rule bit_eqI) 
  apply (simp only: bit_and_m8 bit_push_bit_iff bit_drop_bit_eq)
  apply auto
  done

lemma and_m8: "unat ((w :: 64 word) AND - 8) = 8 * (unat w div 8)"
proof -
  have "unat w < 2 ^ 64" using unsigned_less [of w] by simp
  then have "8 * (unat w div 8) < 2 ^ 64" by simp
  then show ?thesis
    apply (simp only: and_m8_push unsigned_push_bit_eq unsigned_drop_bit_eq)
    apply (simp only: push_bit_eq_mult drop_bit_eq_div)
    apply (simp add: take_bit_nat_eq_self unsigned_less)
    done
qed

lemma unat_align: "unat sz + 7 < 2 ^ 64 \<Longrightarrow> unat (align sz) = 8 * ((unat sz + 7) div 8)"
proof -
  assume a: "unat sz + 7 < 2 ^ 64"
  have "unat (sz + 7) = unat sz + unat (7 :: 64 word)"
    by (rule unat_add_lem [THEN iffD1]) (use a in simp)
  then show ?thesis by (simp add: align_def WORD_SIZE_def and_m8)
qed

lemma align_facts:
  assumes "unat sz \<le> 18446744071562067967"
  shows "8 dvd unat (align sz)" "unat sz \<le> unat (align sz)" "unat (align sz) \<le> unat sz + 7"
    "8 dvd unat sz \<Longrightarrow> align sz = sz"
proof -
  have u: "unat (align sz) = 8 * ((unat sz + 7) div 8)"
    by (rule unat_align) (use assms in simp)
  show "8 dvd unat (align sz)" using u by simp
  show "unat sz \<le> unat (align sz)" using u by presburger
  show "unat (align sz) \<le> unat sz + 7" using u by presburger
  assume "8 dvd unat sz"
  then have "unat (align sz) = unat sz" using u by presburger
  then show "align sz = sz" by (simp add: word_unat_eq_iff)
qed

section \<open>Growing the heap\<close>

lemma extension_facts:
  assumes "\<not> int_negative size0"
  shows "8 dvd unat (extension size0)" "32 \<le> unat (extension size0)"
    "unat size0 \<le> unat (extension size0)"
proof -
  define size1 :: size_t where "size1 = (if size0 < 32 then 32 else size0)"
  have b: "unat size1 \<le> 18446744071562067967"
    using not_negative_bound [OF assms] by (simp add: size1_def)
  have g: "32 \<le> unat size1" "unat size0 \<le> unat size1"
    by (auto simp: size1_def word_less_nat_alt)
  have e: "extension size0 = align size1" by (simp add: extension_def size1_def MINBLOCKSIZE_def WORD_SIZE_def)
  from align_facts(1,2) [OF b] g e
  show "8 dvd unat (extension size0)" "32 \<le> unat (extension size0)"
    "unat size0 \<le> unat (extension size0)" by simp_all
qed

lemma unat_m1: "unat (- 1 :: 64 word) = 18446744073709551615"
  by (simp add: unsigned_minus_1_eq_mask mask_eq_exp_minus_1)

lemma core_upd [simp]:
  "core (s\<lparr>epilogue := ep\<rparr>) blocks e L = core s blocks e L"
  by (simp add: core_def ring_def)

lemma extend_fails:
  assumes "\<not> int_negative size0"
    and "\<not> unat (mem_brk s) + unat (extension size0) \<le> unat (mem_max_addr s)"
  shows "mm_extend_heap size0 s = Inr (- 1, s)"
  using assms by (simp add: mm_extend_heap_def Let_def mem_sbrk_def extension_def)

lemma extend_ok:
  assumes c: "consistent s bs L" and nneg: "\<not> int_negative size0"
    and n: "n = extension size0" and room: "unat (mem_brk s) + unat n \<le> unat (mem_max_addr s)"
  shows "\<exists>s'. mm_extend_heap size0 s = Inr (epilogue s, s')
           \<and> consistent s' (bs @ [(epilogue s, n, False)]) (epilogue s # L) \<and> grown s n s'"
proof -
  define E where "E = epilogue s"
  define P where "P = (prologue s, 16 :: size_t, True)"
  note nf = extension_facts [OF nneg, folded n]
  note sen = sentinels [OF c, folded E_def]
  note h = consistent_heap [OF c]
  note co = consistent_core [OF c]
  have big: "\<forall>(x, sz, al) \<in> set bs. 32 \<le> unat sz" using c by (simp add: consistent_def)
  have ub: "unat (mem_brk s + n) = unat (mem_brk s) + unat n"
    by (rule unat_add_sz [OF room])
  have brk_ne: "mem_brk s \<noteq> - 1"
  proof
    assume "mem_brk s = - 1"
    then have "unat (mem_brk s) = 18446744073709551615" by (simp only: unat_m1)
    with room nf(2) unat_lt64 [of "mem_max_addr s"] show False by simp
  qed
  define s1 where "s1 = s\<lparr>mem_brk := mem_brk s + n\<rparr>"
  have ev0: "mm_extend_heap size0 s =
      rbind (block_set_size_and_allocated E n False s1) (\<lambda>s2.
      rbind (insert_free_block E s2) (\<lambda>s3.
      rbind (block_next s3 E) (\<lambda>e.
      rbind (block_set_size_and_allocated e TAGS_SIZE True (s3\<lparr>epilogue := e\<rparr>)) (\<lambda>s4.
      Inr (E, s4)))))"
    using nneg room brk_ne n
    by (simp add: mm_extend_heap_def Let_def mem_sbrk_def extension_def s1_def E_def)
  \<comment> \<open>the old Epilogue becomes the new free block\<close>
  have eE: "(E, 16, True) \<in> set (all_blocks s bs)" by (simp add: all_blocks_def E_def)
  note fE = blk_facts [OF h eE]
  have En: "unat E + unat n \<le> unat (mem_brk s + n)" using sen(2) ub by simp
  have u1: "unat (E + n - 8) = unat E + unat n - 8"
    by (rule unat_footer [OF En]) (use nf in simp)
  have u2: "unat (E + n) = unat E + unat n" by (rule unat_add_sz [OF En])
  have v1: "valid_word s1 E" "valid_word s1 (E + n - 8)"
    using fE sen(2) ub u1 nf by (simp_all add: valid_word_def s1_def)
  define m2 where "m2 = (mem s)(E := tag n False, E + n - 8 := tag n False)"
  define s2 where "s2 = s\<lparr>mem := m2, mem_brk := mem_brk s + n\<rparr>"
  have e1: "block_set_size_and_allocated E n False s1 = Inr s2"
    using set_tags_valid [OF v1] by (simp add: s1_def s2_def m2_def)
  have co0: "core s ((P # bs) @ [(E, 16, True)]) (unat (mem_brk s)) L"
    using co by (simp add: all_blocks_def P_def E_def)
  have la: "layout (unat (mem_start_brk s)) (P # bs) (unat E)"
    using sen(1,3) by (simp add: P_def)
  have EL: "E \<notin> set L"
  proof
    assume "E \<in> set L"
    from ring_block [OF c this] obtain sz where "(E, sz, False) \<in> set bs" by blast
    from interior_bounds(2) [OF c this] consistent_big [OF c this] show False by (simp add: E_def)
  qed
  have c2: "core s2 ((P # bs) @ [(E, n, False)]) (unat E + unat n) L"
    unfolding s2_def
  proof (rule retag_end [OF co0 la])
    show "layout (unat E) [(E, n, False)] (unat E + unat n)" using nf by simp
    show "unat E + unat n \<le> unat (mem_brk s + n)" by (rule En)
    show "tags_ok m2 [(E, n, False)]" by (simp add: tags_ok_def m2_def)
    show "m2 c = mem s c" if "unat c < unat E" for c
    proof -
      from that u1 nf have "unat c \<noteq> unat E" "unat c \<noteq> unat (E + n - 8)" by auto
      then have "c \<noteq> E" "c \<noteq> E + n - 8" by auto
      then show ?thesis by (simp add: m2_def)
    qed
    show "set L \<inter> fst ` set [(E, 16, True)] = {}" using EL by simp
  qed
  have En0: "E \<noteq> NULL"
  proof -
    from fE(1) sen(1,3) layout_le [OF sen(3)] have "unat E \<noteq> 0" by simp
    then show ?thesis by (auto simp: NULL_def)
  qed
  have "(E, n, False) \<in> set ((P # bs) @ [(E, n, False)])" by simp
  from insert_ok [OF c2 this nf(2) EL En0] obtain s3 where
    e2: "insert_free_block E s2 = Inr s3"
    and c3: "core s3 ((P # bs) @ [(E, n, False)]) (unat E + unat n) (E # L)"
    and f3: "frame s2 s3" by blast
  from c3 have h3: "heap_at s3 ((P # bs) @ [(E, n, False)]) (unat E + unat n)"
    by (simp add: core_def)
  have bE3: "(E, n, False) \<in> set ((P # bs) @ [(E, n, False)])" by simp
  have e3: "block_next s3 E = Inr (E + n)"
    using blk_facts(5,7) [OF h3 bE3] blk_valid(1) [OF h3 bE3] by (simp add: block_next_tag)
  \<comment> \<open>the new Epilogue\<close>
  have brk3: "mem_brk s3 = mem_brk s + n" "mem_start_brk s3 = mem_start_brk s"
    using f3 by (simp_all add: frame_def s2_def)
  define N where "N = E + n"
  define F where "F = N + 8"
  have uN: "unat N = unat E + unat n" using u2 by (simp add: N_def)
  have uF: "unat F = unat N + 8" unfolding F_def
    by (rule unat_add8 [of _ "mem_brk s + n"]) (use uN sen(2) ub in simp)
  have fe: "N + 16 - 8 = F" by (simp add: F_def)
  have v4: "valid_word (s3\<lparr>epilogue := N\<rparr>) N" "valid_word (s3\<lparr>epilogue := N\<rparr>) F"
    using uN uF sen(2) ub fE nf brk3 by (simp_all add: valid_word_def)
  define m4 where "m4 = (mem s3)(N := tag 16 True, F := tag 16 True)"
  define s4 where "s4 = s3\<lparr>epilogue := N, mem := m4\<rparr>"
  have "block_set_size_and_allocated N 16 True (s3\<lparr>epilogue := N\<rparr>) = Inr s4"
    using set_tags_valid [of "s3\<lparr>epilogue := N\<rparr>" N 16 True] v4
    unfolding fe by (simp add: s4_def m4_def)
  then have e4: "block_set_size_and_allocated (E + n) TAGS_SIZE True (s3\<lparr>epilogue := E + n\<rparr>) = Inr s4"
    by (simp add: TAGS_SIZE_def WORD_SIZE_def N_def)
  have c3': "core (s3\<lparr>epilogue := N\<rparr>) (((P # bs) @ [(E, n, False)]) @ []) (unat E + unat n) (E # L)"
    using c3 by simp
  have la3: "layout (unat (mem_start_brk (s3\<lparr>epilogue := N\<rparr>))) ((P # bs) @ [(E, n, False)]) (unat E + unat n)"
    using h3 by (simp add: heap_at_def)
  have "core (s3\<lparr>epilogue := N\<rparr>\<lparr>mem := m4, mem_brk := mem_brk s + n\<rparr>)
          (((P # bs) @ [(E, n, False)]) @ [(N, 16, True)]) (unat E + unat n + 16) (E # L)"
  proof (rule retag_end [OF c3' la3])
    show "layout (unat E + unat n) [(N, 16, True)] (unat E + unat n + 16)" using uN by simp
    show "unat E + unat n + 16 \<le> unat (mem_brk s + n)" using sen(2) ub by simp
    show "tags_ok m4 [(N, 16, True)]" unfolding tags_ok_def using fe by (simp add: m4_def)
    show "m4 c = mem (s3\<lparr>epilogue := N\<rparr>) c" if "unat c < unat E + unat n" for c
    proof -
      from that uN uF have "unat c \<noteq> unat N" "unat c \<noteq> unat F" by auto
      then have "c \<noteq> N" "c \<noteq> F" by auto
      then show ?thesis by (simp add: m4_def)
    qed
    show "set (E # L) \<inter> fst ` set [] = {}" by simp
  qed
  moreover have "s3\<lparr>epilogue := N\<rparr>\<lparr>mem := m4, mem_brk := mem_brk s + n\<rparr> = s4"
    using brk3 by (simp add: s4_def)
  moreover have "prologue s4 = prologue s" "epilogue s4 = N" "mem_brk s4 = mem_brk s + n"
    using f3 by (simp_all add: s4_def frame_def s2_def)
  moreover have "unat E + unat n + 16 = unat (mem_brk s) + unat n" using sen(2) by arith
  ultimately have "core s4 (all_blocks s4 (bs @ [(E, n, False)])) (unat (mem_brk s4)) (E # L)"
    using ub by (simp add: all_blocks_def P_def)
  moreover have "\<forall>(x, sz, al) \<in> set (bs @ [(E, n, False)]). 32 \<le> unat sz"
    using big nf by auto
  ultimately have "consistent s4 (bs @ [(E, n, False)]) (E # L)" by (simp add: consistent_def)
  moreover have "grown s n s4" using f3 by (simp add: grown_def s4_def frame_def s2_def E_def N_def)
  moreover have "mm_extend_heap size0 s = Inr (E, s4)"
    using ev0 e1 e2 e3 e4 by simp
  ultimately show ?thesis by (auto simp: E_def)
qed

section \<open>Placement and the search of the free list\<close>

lemma layout_distinct: "layout a bs e \<Longrightarrow> distinct (map fst bs)"
proof (induction bs arbitrary: a)
  case Nil
  then show ?case by simp
next
  case (Cons b bs)
  obtain y szy aly where b: "b = (y, szy, aly)" by (cases b)
  with Cons.prems have lay: "layout (a + unat szy) bs e" and ya: "unat y = a"
    and ok: "16 \<le> unat szy" by auto
  have "y \<notin> fst ` set bs"
  proof
    assume "y \<in> fst ` set bs"
    then obtain sz al where "(y, sz, al) \<in> set bs" by force
    from layout_bounds [OF lay this] ya ok show False by simp
  qed
  with Cons.IH [OF lay] b show ?case by simp
qed

lemma consistent_distinct:
  assumes c: "consistent s bs L"
  shows "distinct (map fst bs)" "distinct L"
proof -
  from layout_distinct [OF sentinels(3) [OF c]] show "distinct (map fst bs)" .
  from c show "distinct L" by (simp add: consistent_def core_def)
qed

lemma not_in_others:
  assumes c: "consistent s (xs @ (x, sz, al) # ys) L"
  shows "x \<notin> fst ` set xs" "x \<notin> fst ` set ys"
  using consistent_distinct(1) [OF c] by auto

text \<open>An address strictly inside a block is not the address of a block.\<close>

lemma inside_not_block:
  assumes c: "consistent s (xs @ (x, sz, al) # ys) L"
    and i: "unat x < unat y" "unat y < unat x + unat sz"
  shows "y \<notin> fst ` set (xs @ (x, sz, al) # ys)"
proof
  assume "y \<in> fst ` set (xs @ (x, sz, al) # ys)"
  then obtain sy ay where m: "(y, sy, ay) \<in> set (xs @ (x, sz, al) # ys)" by force
  have b: "(x, sz, al) \<in> set (xs @ (x, sz, al) # ys)" by simp
  from layout_disjoint [OF sentinels(3) [OF c] b m] layout_bounds [OF sentinels(3) [OF c] m] i
  show False by auto
qed

lemma unsplit_ok:
  assumes c: "consistent s (xs @ (x, sz, False) # ys) L" and xl: "x \<in> set L"
  shows "\<exists>s1 s2. pull_free_block x s = Inr s1 \<and> block_set_allocated x True s1 = Inr s2
           \<and> consistent s2 (xs @ (x, sz, True) # ys) (remove1 x L) \<and> frame s s2"
proof -
  from pull_consistent [OF c xl] obtain s1 where p: "pull_free_block x s = Inr s1"
    and c1: "consistent s1 (xs @ (x, sz, False) # ys) (remove1 x L)" and f1: "frame s s1" by blast
  have "x \<notin> set (remove1 x L)" using consistent_distinct(2) [OF c] by simp
  from set_allocated_consistent [OF c1 this, of True] obtain s2 where
    "block_set_allocated x True s1 = Inr s2" "consistent s2 (xs @ (x, sz, True) # ys) (remove1 x L)"
    "frame s1 s2" by blast
  with p f1 show ?thesis using frame_trans by blast
qed

lemma break_ok:
  assumes c: "consistent s (xs @ (x, sz, False) # ys) L" and xl: "x \<in> set L"
    and r8: "8 dvd unat r" and r32: "32 \<le> unat r" and rs: "unat r + 32 \<le> unat sz"
  shows "\<exists>s'. mm_break x r s = Inr s'
           \<and> consistent s' (xs @ (x, r, True) # (x + r, sz - r, False) # ys) ((x + r) # remove1 x L)
           \<and> frame s s'"
proof -
  have b: "(x, sz, False) \<in> set (all_blocks s (xs @ (x, sz, False) # ys))" by (simp add: all_blocks_def)
  note rd = read_block [OF c b]
  from pull_consistent [OF c xl] obtain s1 where p: "pull_free_block x s = Inr s1"
    and c1: "consistent s1 (xs @ (x, sz, False) # ys) (remove1 x L)" and f1: "frame s s1" by blast
  have nx: "x \<notin> set (remove1 x L)" using consistent_distinct(2) [OF c] by simp
  from split_consistent [OF c1 nx r8 r32 rs] obtain s2 s3 where
    e1: "block_set_size_and_allocated x r True s1 = Inr s2"
    and e2: "block_next s2 x = Inr (x + r)"
    and e3: "block_set_size_and_allocated (x + r) (sz - r) False s2 = Inr s3"
    and c3: "consistent s3 (xs @ (x, r, True) # (x + r, sz - r, False) # ys) (remove1 x L)"
    and f3: "frame s1 s3" by blast
  have xr: "unat (x + r) = unat x + unat r"
    by (rule unat_add_sz [of x r "epilogue s"]) (use split_layout(3) [OF c] rs in simp)
  have "x + r \<notin> fst ` set (xs @ (x, sz, False) # ys)"
    by (rule inside_not_block [OF c]) (use xr r32 rs in simp_all)
  moreover have "set L \<subseteq> fst ` set (xs @ (x, sz, False) # ys)"
    using ring_block [OF c] by force
  ultimately have nl: "x + r \<notin> set (remove1 x L)" by (auto dest: notin_set_remove1)
  have mb: "(x + r, sz - r, False) \<in> set (xs @ (x, r, True) # (x + r, sz - r, False) # ys)" by simp
  from insert_consistent [OF c3 mb nl] obtain s4 where
    e4: "insert_free_block (x + r) s3 = Inr s4"
    and c4: "consistent s4 (xs @ (x, r, True) # (x + r, sz - r, False) # ys) ((x + r) # remove1 x L)"
    and f4: "frame s3 s4" by blast
  have "mm_break x r s = Inr s4"
    unfolding mm_break_def using rd(1) p e1 e2 e3 e4 by simp
  moreover have "frame s s4" using f1 f3 f4 frame_trans by blast
  ultimately show ?thesis using c4 by blast
qed

lemma request_facts:
  assumes "\<not> int_negative sz0"
  shows "8 dvd unat (request sz0)" "48 \<le> unat (request sz0)" "unat sz0 + 16 \<le> unat (request sz0)"
proof -
  define size1 :: size_t where "size1 = (if sz0 < 32 then 32 else sz0)"
  have b: "unat size1 \<le> 18446744071562067967"
    using not_negative_bound [OF assms] by (simp add: size1_def)
  have g: "32 \<le> unat size1" "unat sz0 \<le> unat size1" "unat size1 \<le> unat sz0 + 32"
    by (auto simp: size1_def word_less_nat_alt)
  note af = align_facts(1,2,3) [OF b]
  have "unat (align size1 + 16) = unat (align size1) + unat (16 :: 64 word)"
    by (rule unat_add_lem [THEN iffD1]) (use af b in simp)
  moreover have "request sz0 = align size1 + 16"
    by (simp add: request_def size1_def MINBLOCKSIZE_def TAGS_SIZE_def WORD_SIZE_def)
  ultimately have u: "unat (request sz0) = unat (align size1) + 16" by simp
  show "8 dvd unat (request sz0)" using u af by simp
  show "48 \<le> unat (request sz0)" using u af g by simp
  show "unat sz0 + 16 \<le> unat (request sz0)" using u af g by simp
qed

lemma blk_size_eq:
  assumes c: "consistent s bs L" and b: "(x, sz, al) \<in> set bs"
  shows "blk_size bs x = sz"
  using map_of_is_SomeI [OF consistent_distinct(1) [OF c] b] by (simp add: blk_size_def)

lemma ring_read:
  assumes c: "consistent s bs L" and x: "x \<in> set L"
  shows "block_size s x = Inr (blk_size bs x)" "block_next_free s x = Inr (mem s (x + 8))"
proof -
  from ring_block [OF c x] obtain sz where b: "(x, sz, False) \<in> set bs" by blast
  from read_block(1) [OF c in_all_blocks [OF b]] blk_size_eq [OF c b]
  show "block_size s x = Inr (blk_size bs x)" by simp
  from link_valid(1) [OF consistent_heap [OF c] in_all_blocks [OF b] consistent_big [OF c b]]
  show "block_next_free s x = Inr (mem s (x + 8))"
    by (simp add: block_next_free_def load_valid WORD_SIZE_def)
qed

lemma search_ok:
  assumes c: "consistent s bs L"
  shows "L = pre @ suf \<Longrightarrow> suf \<noteq> [] \<Longrightarrow> length suf \<le> fuel \<Longrightarrow>
     malloc_search fuel (hd L) req mx (hd suf) s =
       (case find (\<lambda>x. req \<le> blk_size bs x) suf of
          Some x \<Rightarrow> Inr (Some x, s)
        | None \<Rightarrow> rbind (mm_extend_heap mx s) (\<lambda>(ext, s1).
                    if ext = - 1 then Inr (None, s1)
                    else malloc_search (fuel - length suf) (hd L) req mx ext s1))"
proof (induction suf arbitrary: pre fuel)
  case Nil
  then show ?case by simp
next
  case (Cons y suf')
  from Cons.prems(3) obtain n where fuel: "fuel = Suc n" and n: "length suf' \<le> n"
    by (cases fuel) auto
  have yL: "y \<in> set L" using Cons.prems(1) by simp
  note rd = ring_read [OF c yL]
  have cy: "cyc (mem s) L" using c by (simp add: consistent_def core_def ring_def)
  have d: "distinct L" using consistent_distinct(2) [OF c] .
  have fl: "fuel - length (y # suf') = n - length suf'" using fuel by simp
  have main: "malloc_search fuel (hd L) req mx y s =
       (case find (\<lambda>x. req \<le> blk_size bs x) (y # suf') of
          Some x \<Rightarrow> Inr (Some x, s)
        | None \<Rightarrow> rbind (mm_extend_heap mx s) (\<lambda>(ext, s1).
                    if ext = - 1 then Inr (None, s1)
                    else malloc_search (n - length suf') (hd L) req mx ext s1))"
  proof (cases "req \<le> blk_size bs y")
    case True
    then show ?thesis using rd fuel by (simp add: not_less [symmetric])
  next
    case False
    then have lt: "blk_size bs y < req" by simp
    show ?thesis
    proof (cases suf')
      case Nil
      with Cons.prems(1) cy have "mem s (y + 8) = hd L" using cyc_next_last [of "mem s" pre y]
        by simp
      then show ?thesis using rd fuel lt False Nil by (simp cong: if_cong)
    next
      case (Cons z zs)
      with Cons.prems(1) cy have nx: "mem s (y + 8) = z" using cyc_next [of "mem s" pre y z zs]
        by simp
      have "z \<noteq> hd L" using d Cons.prems(1) Cons by (cases pre) auto
      moreover have "L = (pre @ [y]) @ suf'" using Cons.prems(1) by simp
      moreover have "suf' \<noteq> []" using Cons by simp
      ultimately show ?thesis
        using Cons.IH [of "pre @ [y]" n] n rd fuel lt False nx Cons by simp
    qed
  qed
  from main show ?case unfolding fl by simp
qed

lemma place_at:
  "x \<notin> fst ` set xs \<Longrightarrow>
   place req x (xs @ (x, sz, al) # ys) =
     xs @ (if unat req + 256 \<le> unat sz
           then [(x, req, True), (x + req, sz - req, False)] else [(x, sz, True)]) @ ys"
  by (induction xs) auto

lemma place_ok:
  assumes c: "consistent s bs L" and xl: "x \<in> set L"
    and r8: "8 dvd unat req" and r32: "32 \<le> unat req" and fit: "req \<le> blk_size bs x"
  shows "\<exists>s'. rbind (block_size s x) (\<lambda>csz.
              rbind (if csz - req \<ge> 8 * MINBLOCKSIZE then mm_break x req s
                     else rbind (pull_free_block x s) (block_set_allocated x True)) (\<lambda>s2.
              Inr (payload x, s2))) = Inr (payload x, s')
           \<and> consistent s' (place req x bs) (place_list req x bs L) \<and> frame s s'"
proof -
  from ring_block [OF c xl] obtain sz where b: "(x, sz, False) \<in> set bs" by blast
  then obtain xs ys where bs: "bs = xs @ (x, sz, False) # ys" by (auto simp: in_set_conv_decomp)
  note c' = c [unfolded bs]
  have szq: "blk_size bs x = sz" by (rule blk_size_eq [OF c b])
  with fit have le: "req \<le> sz" by simp
  then have us: "unat (sz - req) = unat sz - unat req" by (simp add: unat_sub)
  have le': "unat req \<le> unat sz" using le by (simp add: word_le_nat_alt)
  have cond: "(8 * MINBLOCKSIZE \<le> sz - req) \<longleftrightarrow> unat req + 256 \<le> unat sz"
    using us le' by (auto simp add: word_le_nat_alt MINBLOCKSIZE_def WORD_SIZE_def)
  have rd: "block_size s x = Inr sz" using ring_read(1) [OF c xl] szq by simp
  have pl: "place req x bs = xs @ (if unat req + 256 \<le> unat sz
           then [(x, req, True), (x + req, sz - req, False)] else [(x, sz, True)]) @ ys"
    unfolding bs by (rule place_at [OF not_in_others(1) [OF c']])
  show ?thesis
  proof (cases "unat req + 256 \<le> unat sz")
    case True
    then have "unat req + 32 \<le> unat sz" by simp
    from break_ok [OF c' xl r8 r32 this] obtain s' where
      "mm_break x req s = Inr s'"
      "consistent s' (xs @ (x, req, True) # (x + req, sz - req, False) # ys) ((x + req) # remove1 x L)"
      "frame s s'" by blast
    then show ?thesis using rd cond True pl szq by (auto simp: place_list_def)
  next
    case False
    from unsplit_ok [OF c' xl] obtain s1 s2 where
      "pull_free_block x s = Inr s1" "block_set_allocated x True s1 = Inr s2"
      "consistent s2 (xs @ (x, sz, True) # ys) (remove1 x L)" "frame s s2" by blast
    then show ?thesis using rd cond False pl szq by (auto simp: place_list_def)
  qed
qed

lemma growth_ge: "req \<le> growth req s"
  by (simp add: growth_def not_less)

lemma malloc_negative: "int_negative sz0 \<Longrightarrow> mm_malloc fuel sz0 s = Inr (NULL, s)"
  by (simp add: mm_malloc_def)

lemma malloc_spec:
  assumes c: "consistent s bs L" and nneg: "\<not> int_negative sz0" and fuel: "length L < fuel"
    and req: "req = request sz0" and mx: "mx = growth req s" and n: "n = extension mx"
  shows "case first_fit req bs L of
           Some x \<Rightarrow>
             (\<exists>s'. mm_malloc fuel sz0 s = Inr (payload x, s')
                \<and> consistent s' (place req x bs) (place_list req x bs L) \<and> frame s s')
         | None \<Rightarrow>
             if int_negative mx then mm_malloc fuel sz0 s = Inl AssertFailed
             else if unat (mem_brk s) + unat n \<le> unat (mem_max_addr s)
             then (\<exists>s'. mm_malloc fuel sz0 s = Inr (payload (epilogue s), s')
                \<and> consistent s' (place req (epilogue s) (bs @ [(epilogue s, n, False)]))
                      (place_list req (epilogue s) (bs @ [(epilogue s, n, False)]) (epilogue s # L))
                \<and> grown s n s')
             else mm_malloc fuel sz0 s = Inr (NULL, s)"
proof -
  note rf = request_facts [OF nneg, folded req]
  have r32: "32 \<le> unat req" using rf(2) by simp
  define tail where "tail = (\<lambda>(found :: addr option, s1).
        case found of
          None \<Rightarrow> Inr (NULL, s1)
        | Some cur \<Rightarrow>
            rbind (block_size s1 cur) (\<lambda>csz.
            rbind (if csz - req \<ge> 8 * MINBLOCKSIZE then mm_break cur req s1
                   else rbind (pull_free_block cur s1) (block_set_allocated cur True)) (\<lambda>s2.
            Inr (payload cur, s2))))"
  have unf: "mm_malloc fuel sz0 s =
      rbind (if flist_first s = NULL then
               rbind (mm_extend_heap mx s) (\<lambda>(ext, s1).
                 if ext = - 1 then Inr (None, s1) else Inr (Some ext, s1))
             else malloc_search fuel (flist_first s) req mx (flist_first s) s) tail"
    unfolding tail_def mx req mm_malloc_def Let_def request_def growth_def
    using nneg by simp
  \<comment> \<open>what happens once the heap has been extended\<close>
  have ext_case: "\<exists>s'. rbind (rbind (mm_extend_heap mx s) (\<lambda>(ext, s1).
                 if ext = - 1 then Inr (None, s1) else k ext s1)) tail = Inr (payload (epilogue s), s')
                \<and> consistent s' (place req (epilogue s) (bs @ [(epilogue s, n, False)]))
                      (place_list req (epilogue s) (bs @ [(epilogue s, n, False)]) (epilogue s # L))
                \<and> grown s n s'"
    if nm: "\<not> int_negative mx" and room: "unat (mem_brk s) + unat n \<le> unat (mem_max_addr s)"
      and k: "\<And>s1. consistent s1 (bs @ [(epilogue s, n, False)]) (epilogue s # L) \<Longrightarrow>
                \<not> int_negative mx \<Longrightarrow> k (epilogue s) s1 = Inr (Some (epilogue s), s1)"
    for k
  proof -
    define E where "E = epilogue s"
    from extend_ok [OF c nm n room] obtain s1 where
      e: "mm_extend_heap mx s = Inr (E, s1)"
      and c1: "consistent s1 (bs @ [(E, n, False)]) (E # L)" and g1: "grown s n s1"
      unfolding E_def by blast
    have En: "E \<noteq> - 1"
    proof
      assume "E = - 1"
      then have "unat E = 18446744073709551615" by (simp only: unat_m1)
      with sentinels(2) [OF c] unat_lt64 [of "mem_brk s"] show False by (simp add: E_def)
    qed
    have fitE: "req \<le> blk_size (bs @ [(E, n, False)]) E"
    proof -
      have "blk_size (bs @ [(E, n, False)]) E = n" by (rule blk_size_eq [OF c1, of E n False]) simp
      moreover have "unat mx \<le> unat n" using extension_facts(3) [OF nm] n by simp
      moreover have "unat req \<le> unat mx" using growth_ge [of req s] mx by (simp add: word_le_nat_alt)
      ultimately show ?thesis by (simp add: word_le_nat_alt)
    qed
    have "E \<in> set (E # L)" by simp
    from place_ok [OF c1 this rf(1) r32 fitE] obtain s' where
      p: "tail (Some E, s1) = Inr (payload E, s')"
      and c': "consistent s' (place req E (bs @ [(E, n, False)])) (place_list req E (bs @ [(E, n, False)]) (E # L))"
      and f': "frame s1 s'" by (auto simp: tail_def)
    have "grown s n s'" using g1 f' by (simp add: grown_def frame_def)
    moreover have "rbind (rbind (mm_extend_heap mx s) (\<lambda>(ext, s1).
                 if ext = - 1 then Inr (None, s1) else k ext s1)) tail = Inr (payload E, s')"
      using e En k [OF c1 [unfolded E_def] nm] p by (simp add: E_def)
    ultimately show ?thesis using c' unfolding E_def by blast
  qed
  have fail_case: "rbind (rbind (mm_extend_heap mx s) (\<lambda>(ext, s1).
                 if ext = - 1 then Inr (None, s1) else k ext s1)) tail = Inr (NULL, s)"
    if nm: "\<not> int_negative mx" and room: "\<not> unat (mem_brk s) + unat n \<le> unat (mem_max_addr s)"
    for k
  proof -
    from extend_fails [OF nm] room n have "mm_extend_heap mx s = Inr (- 1, s)" by simp
    then show ?thesis by (simp add: tail_def)
  qed
  have assert_case: "rbind (rbind (mm_extend_heap mx s) (\<lambda>(ext, s1).
                 if ext = - 1 then Inr (None, s1) else k ext s1)) tail = Inl AssertFailed"
    if "int_negative mx" for k
    using that by (simp add: mm_extend_heap_def)
  have result: "if int_negative mx then mm_malloc fuel sz0 s = Inl AssertFailed
             else if unat (mem_brk s) + unat n \<le> unat (mem_max_addr s)
             then (\<exists>s'. mm_malloc fuel sz0 s = Inr (payload (epilogue s), s')
                \<and> consistent s' (place req (epilogue s) (bs @ [(epilogue s, n, False)]))
                      (place_list req (epilogue s) (bs @ [(epilogue s, n, False)]) (epilogue s # L))
                \<and> grown s n s')
             else mm_malloc fuel sz0 s = Inr (NULL, s)"
    if unf': "mm_malloc fuel sz0 s = rbind (rbind (mm_extend_heap mx s) (\<lambda>(ext, s1).
                 if ext = - 1 then Inr (None, s1) else k ext s1)) tail"
      and k: "\<And>s1. consistent s1 (bs @ [(epilogue s, n, False)]) (epilogue s # L) \<Longrightarrow>
                \<not> int_negative mx \<Longrightarrow> k (epilogue s) s1 = Inr (Some (epilogue s), s1)"
    for k
    unfolding unf' using ext_case [of k, OF _ _ k] fail_case [of k] assert_case [of k] by auto
  show ?thesis
  proof (cases L)
    case Nil
    then have f0: "flist_first s = NULL" using ring_first(1) [OF consistent_core [OF c]] by simp
    have ff: "first_fit req bs L = None" using Nil by (simp add: first_fit_def)
    have unf': "mm_malloc fuel sz0 s =
        rbind (rbind (mm_extend_heap mx s) (\<lambda>(ext, s1).
                 if ext = - 1 then Inr (None, s1) else Inr (Some ext, s1))) tail"
      unfolding unf using f0 by simp
    from result [OF unf'] show ?thesis using ff by simp
  next
    case (Cons l ls)
    then have ne: "L \<noteq> []" by simp
    have f0: "flist_first s \<noteq> NULL" "flist_first s = hd L"
      using ring_first [OF consistent_core [OF c]] ne by simp_all
    have "L = [] @ L" by simp
    from search_ok [OF c this ne, of fuel req mx] fuel
    have se: "malloc_search fuel (hd L) req mx (hd L) s =
       (case first_fit req bs L of
          Some x \<Rightarrow> Inr (Some x, s)
        | None \<Rightarrow> rbind (mm_extend_heap mx s) (\<lambda>(ext, s1).
                    if ext = - 1 then Inr (None, s1)
                    else malloc_search (fuel - length L) (hd L) req mx ext s1))"
      by (simp add: first_fit_def)
    show ?thesis
    proof (cases "first_fit req bs L")
      case (Some x)
      then have xl: "x \<in> set L" and fit: "req \<le> blk_size bs x"
        by (auto simp: first_fit_def find_Some_iff)
      from place_ok [OF c xl rf(1) r32 fit] obtain s' where
        "tail (Some x, s) = Inr (payload x, s')"
        "consistent s' (place req x bs) (place_list req x bs L)" "frame s s'"
        by (auto simp: tail_def)
      then show ?thesis using Some unf f0 se by auto
    next
      case None
      obtain k where fk: "fuel - length L = Suc k" using fuel by (cases "fuel - length L") auto
      have unf': "mm_malloc fuel sz0 s =
          rbind (rbind (mm_extend_heap mx s) (\<lambda>(ext, s1).
                   if ext = - 1 then Inr (None, s1)
                   else malloc_search (Suc k) (hd L) req mx ext s1)) tail"
        unfolding unf using f0 se None fk by (simp cong: if_cong)
      have "malloc_search (Suc k) (hd L) req mx (epilogue s) s1 = Inr (Some (epilogue s), s1)"
        if c1: "consistent s1 (bs @ [(epilogue s, n, False)]) (epilogue s # L)"
          and nm: "\<not> int_negative mx" for s1
      proof -
        have "epilogue s \<in> set (epilogue s # L)" by simp
        from ring_read(1) [OF c1 this]
        have "block_size s1 (epilogue s) = Inr n"
          using blk_size_eq [OF c1, of "epilogue s" n False] by simp
        moreover have "\<not> n < req"
        proof -
          have "unat mx \<le> unat n" using extension_facts(3) [OF nm] n by simp
          moreover have "unat req \<le> unat mx"
            using growth_ge [of req s] mx by (simp add: word_le_nat_alt)
          ultimately show ?thesis by (simp add: word_less_nat_alt)
        qed
        ultimately show ?thesis by simp
      qed
      from result [OF unf' this] show ?thesis using None by simp
    qed
  qed
qed

section \<open>Coalescing and release\<close>

lemma next_blk_frame: "frame s s' \<Longrightarrow> next_blk s' ys = next_blk s ys"
  by (cases ys) (simp_all add: next_blk_def frame_def)

lemma prev_blk_frame: "frame s s' \<Longrightarrow> prev_blk s' xs = prev_blk s xs"
  by (simp add: prev_blk_def frame_def)

lemma neighbours:
  assumes c: "consistent s (xs @ (x, sz, al) # ys) L"
    and n: "next_blk s ys = (y, sy, ay)" and p: "prev_blk s xs = (p, sp, ap)"
  shows "block_next s x = Inr y" "block_prev s x = Inr p"
    "block_allocated s y = Inr ay" "block_allocated s p = Inr ap"
    "block_size s y = Inr sy" "block_size s p = Inr sp"
    "x + sz = y" "p + sp = x"
proof -
  note h = consistent_heap [OF c]
  define bs where "bs = xs @ (x, sz, al) # ys"
  have lay: "layout (unat (mem_start_brk s)) (all_blocks s bs) (unat (mem_brk s))"
    using h by (simp add: heap_at_def bs_def)
  have bx: "(x, sz, al) \<in> set (all_blocks s bs)" by (simp add: all_blocks_def bs_def)
  have nb: "(y, sy, ay) \<in> set (all_blocks s bs)"
    using n by (cases ys) (auto simp: next_blk_def all_blocks_def bs_def)
  have pb: "(p, sp, ap) \<in> set (all_blocks s bs)"
    using p by (cases xs rule: rev_cases) (auto simp: prev_blk_def all_blocks_def bs_def)
  note c0 = c [folded bs_def] and h0 = h [folded bs_def]
  \<comment> \<open>the next block\<close>
  have "\<exists>pre post. all_blocks s bs = pre @ (x, sz, al) # (y, sy, ay) # post"
  proof (cases ys)
    case Nil
    with n have "all_blocks s bs = ((prologue s, 16, True) # xs) @ (x, sz, al) # (y, sy, ay) # []"
      by (simp add: next_blk_def all_blocks_def bs_def)
    then show ?thesis by blast
  next
    case (Cons b ys')
    with n have "all_blocks s bs = ((prologue s, 16, True) # xs) @ (x, sz, al) # (y, sy, ay) # (ys' @ [(epilogue s, 16, True)])"
      by (simp add: next_blk_def all_blocks_def bs_def)
    then show ?thesis by blast
  qed
  then obtain pre post where "all_blocks s bs = pre @ (x, sz, al) # (y, sy, ay) # post" by blast
  with lay have "layout (unat (mem_start_brk s)) (pre @ (x, sz, al) # (y, sy, ay) # post) (unat (mem_brk s))"
    by simp
  from layout_next [OF this order_refl] show xy: "x + sz = y" .
  from read_block(3) [OF c0 bx] xy show "block_next s x = Inr y" by simp
  from read_block(1,2) [OF c0 nb] show "block_allocated s y = Inr ay" "block_size s y = Inr sy"
    by simp_all
  \<comment> \<open>the previous block\<close>
  have "\<exists>pre post. all_blocks s bs = pre @ (p, sp, ap) # (x, sz, al) # post"
  proof (cases xs rule: rev_cases)
    case Nil
    with p have "all_blocks s bs = [] @ (p, sp, ap) # (x, sz, al) # (ys @ [(epilogue s, 16, True)])"
      by (simp add: prev_blk_def all_blocks_def bs_def)
    then show ?thesis by blast
  next
    case (snoc xs' b)
    with p have "all_blocks s bs = ((prologue s, 16, True) # xs') @ (p, sp, ap) # (x, sz, al) # (ys @ [(epilogue s, 16, True)])"
      by (simp add: prev_blk_def all_blocks_def bs_def)
    then show ?thesis by blast
  qed
  then obtain pre' post' where "all_blocks s bs = pre' @ (p, sp, ap) # (x, sz, al) # post'" by blast
  with lay have "layout (unat (mem_start_brk s)) (pre' @ (p, sp, ap) # (x, sz, al) # post') (unat (mem_brk s))"
    by simp
  from layout_next [OF this order_refl] show px: "p + sp = x" .
  from read_block(1,2) [OF c0 pb] show "block_allocated s p = Inr ap" "block_size s p = Inr sp"
    by simp_all
  note fp = blk_facts [OF h0 pb] and vp = blk_valid [OF h0 pb]
  have "x - 8 = p + sp - 8" using px by simp
  with vp(2) fp(8) have "valid_word s (x - 8)" "mem s (x - 8) = tag sp ap" by simp_all
  then have "block_prev s x = Inr (x - sp)"
    using fp(5) by (simp add: block_prev_def load_valid tag_size WORD_SIZE_def)
  moreover have "x - sp = p" using px by auto
  ultimately show "block_prev s x = Inr p" by simp
qed

lemma listedD: "listed x bs L \<Longrightarrow> (a, sa, False) \<in> set bs \<Longrightarrow> a \<noteq> x \<Longrightarrow> a \<in> set L"
  by (fastforce simp: listed_def)

lemma listedI: "(\<And>a sa. (a, sa, False) \<in> set bs \<Longrightarrow> a \<noteq> x \<Longrightarrow> a \<in> set L) \<Longrightarrow> listed x bs L"
  by (auto simp: listed_def)

lemma next_blk_interior:
  assumes c: "consistent s (xs @ (x, sz, al) # ys) L" and n: "next_blk s ys = (y, sy, False)"
  shows "\<exists>ys'. ys = (y, sy, False) # ys'"
  using n by (cases ys) (auto simp: next_blk_def)

lemma prev_blk_interior:
  assumes p: "prev_blk s xs = (p, sp, False)"
  shows "\<exists>xs'. xs = xs' @ [(p, sp, False)]"
  using p by (cases xs rule: rev_cases) (auto simp: prev_blk_def)

lemma absorb_next_ok:
  assumes c: "consistent s (xs @ (x, sz, False) # ys) L" and nx: "x \<notin> set L"
    and li: "listed x (xs @ (x, sz, False) # ys) L" and n: "next_blk s ys = (y, sy, ay)"
  shows "\<exists>s'. (if \<not> ay then
              rbind (pull_free_block y s) (\<lambda>s2.
              rbind (block_size s2 x) (\<lambda>bsz.
              rbind (block_size s2 y) (\<lambda>nsz.
              block_set_size x (bsz + nsz) s2)))
            else Inr s) = Inr s'
      \<and> consistent s' (xs @ (x, (if ay then sz else sz + sy), False) # (if ay then ys else tl ys))
            (remove1 y L)
      \<and> listed x (xs @ (x, (if ay then sz else sz + sy), False) # (if ay then ys else tl ys))
            (remove1 y L)
      \<and> frame s s'"
proof (cases ay)
  case True
  have "y \<notin> set L"
  proof
    assume "y \<in> set L"
    from ring_block [OF c this] obtain sy' where m: "(y, sy', False) \<in> set (xs @ (x, sz, False) # ys)"
      by blast
    have "(y, sy, ay) \<in> set (all_blocks s (xs @ (x, sz, False) # ys))"
      using n by (cases ys) (auto simp: next_blk_def all_blocks_def)
    from layout_addr_unique [OF _ in_all_blocks [OF m] this] consistent_heap [OF c] True
    show False by (auto simp: heap_at_def)
  qed
  then have "remove1 y L = L" by (simp add: remove1_idem)
  with True c li show ?thesis by (intro exI [of _ s]) simp
next
  case False
  with n have "next_blk s ys = (y, sy, False)" by simp
  from next_blk_interior [OF c this] obtain ys' where ys: "ys = (y, sy, False) # ys'" by blast
  note c' = c [unfolded ys]
  have yx: "y \<noteq> x" using consistent_distinct(1) [OF c'] by auto
  have yl: "y \<in> set L" by (rule listedD [OF li _ yx, of sy]) (simp add: ys)
  from pull_consistent [OF c' yl] obtain s2 where p: "pull_free_block y s = Inr s2"
    and c2: "consistent s2 (xs @ (x, sz, False) # (y, sy, False) # ys') (remove1 y L)"
    and f2: "frame s s2" by blast
  have r1: "block_size s2 x = Inr sz"
    by (rule read_block(1) [OF c2, of x sz False]) (simp add: all_blocks_def)
  have r2: "block_size s2 y = Inr sy"
    by (rule read_block(1) [OF c2, of y sy False]) (simp add: all_blocks_def)
  have nx2: "x \<notin> set (remove1 y L)" using nx by (auto dest: notin_set_remove1)
  have ny2: "y \<notin> set (remove1 y L)" using consistent_distinct(2) [OF c] by simp
  from merge_consistent [OF c2 nx2 ny2] obtain s3 where
    m: "block_set_size x (sz + sy) s2 = Inr s3"
    and c3: "consistent s3 (xs @ (x, sz + sy, False) # ys') (remove1 y L)"
    and f3: "frame s2 s3" by blast
  have "listed x (xs @ (x, sz + sy, False) # ys') (remove1 y L)"
  proof (rule listedI)
    fix a sa assume m: "(a, sa, False) \<in> set (xs @ (x, sz + sy, False) # ys')" and ax: "a \<noteq> x"
    then have m': "(a, sa, False) \<in> set xs \<or> (a, sa, False) \<in> set ys'" by auto
    then have "(a, sa, False) \<in> set (xs @ (x, sz, False) # ys)" using ys by auto
    from listedD [OF li this ax] have "a \<in> set L" .
    moreover have "a \<noteq> y"
    proof
      assume "a = y"
      with m' have "y \<in> fst ` set xs \<or> y \<in> fst ` set ys'" by force
      moreover have "consistent s ((xs @ [(x, sz, False)]) @ (y, sy, False) # ys') L" using c' by simp
      from not_in_others [OF this] have "y \<notin> fst ` set xs" "y \<notin> fst ` set ys'" by simp_all
      ultimately show False by blast
    qed
    ultimately show "a \<in> set (remove1 y L)" by simp
  qed
  moreover have "frame s s3" using f2 f3 by (rule frame_trans)
  moreover have "(if \<not> ay then
              rbind (pull_free_block y s) (\<lambda>s2.
              rbind (block_size s2 x) (\<lambda>bsz.
              rbind (block_size s2 y) (\<lambda>nsz.
              block_set_size x (bsz + nsz) s2)))
            else Inr s) = Inr s3" using False p r1 r2 m by simp
  ultimately show ?thesis using False c3 ys by (intro exI [of _ s3]) simp
qed

lemma absorb_prev_ok:
  assumes c: "consistent s (xs @ (x, sz, False) # ys) L" and nx: "x \<notin> set L"
    and li: "listed x (xs @ (x, sz, False) # ys) L" and pv: "prev_blk s xs = (p, sp, ap)"
  shows "\<exists>s'. (if \<not> ap then
              rbind (pull_free_block p s) (\<lambda>s4.
              rbind (block_size s4 p) (\<lambda>psz.
              rbind (block_size s4 x) (\<lambda>bsz.
              rbind (block_set_size p (psz + bsz) s4) (\<lambda>s5.
              Inr (p, s5)))))
            else Inr (x, s)) = Inr ((if ap then x else p), s')
      \<and> consistent s' ((if ap then xs else butlast xs)
            @ ((if ap then x else p), (if ap then sz else sp + sz), False) # ys) (remove1 p L)
      \<and> listed (if ap then x else p) ((if ap then xs else butlast xs)
            @ ((if ap then x else p), (if ap then sz else sp + sz), False) # ys) (remove1 p L)
      \<and> (if ap then x else p) \<notin> set (remove1 p L)
      \<and> frame s s'"
proof (cases ap)
  case True
  have "p \<notin> set L"
  proof
    assume "p \<in> set L"
    from ring_block [OF c this] obtain sp' where m: "(p, sp', False) \<in> set (xs @ (x, sz, False) # ys)"
      by blast
    have "(p, sp, ap) \<in> set (all_blocks s (xs @ (x, sz, False) # ys))"
      using pv by (cases xs rule: rev_cases) (auto simp: prev_blk_def all_blocks_def)
    from layout_addr_unique [OF _ in_all_blocks [OF m] this] consistent_heap [OF c] True
    show False by (auto simp: heap_at_def)
  qed
  then have "remove1 p L = L" by (simp add: remove1_idem)
  with True c li nx show ?thesis by (intro exI [of _ s]) simp
next
  case False
  with pv have "prev_blk s xs = (p, sp, False)" by simp
  from prev_blk_interior [OF this] obtain xs' where xs: "xs = xs' @ [(p, sp, False)]" by blast
  have c': "consistent s (xs' @ (p, sp, False) # (x, sz, False) # ys) L" using c xs by simp
  have px: "p \<noteq> x" using consistent_distinct(1) [OF c'] by auto
  have pl: "p \<in> set L" by (rule listedD [OF li _ px, of sp]) (simp add: xs)
  from pull_consistent [OF c' pl] obtain s4 where pu: "pull_free_block p s = Inr s4"
    and c4: "consistent s4 (xs' @ (p, sp, False) # (x, sz, False) # ys) (remove1 p L)"
    and f4: "frame s s4" by blast
  have r1: "block_size s4 p = Inr sp"
    by (rule read_block(1) [OF c4, of p sp False]) (simp add: all_blocks_def)
  have r2: "block_size s4 x = Inr sz"
    by (rule read_block(1) [OF c4, of x sz False]) (simp add: all_blocks_def)
  have nx4: "x \<notin> set (remove1 p L)" using nx by (auto dest: notin_set_remove1)
  have np4: "p \<notin> set (remove1 p L)" using consistent_distinct(2) [OF c] by simp
  from merge_consistent [OF c4 np4 nx4] obtain s5 where
    m: "block_set_size p (sp + sz) s4 = Inr s5"
    and c5: "consistent s5 (xs' @ (p, sp + sz, False) # ys) (remove1 p L)"
    and f5: "frame s4 s5" by blast
  have "listed p (xs' @ (p, sp + sz, False) # ys) (remove1 p L)"
  proof (rule listedI)
    fix a sa assume m: "(a, sa, False) \<in> set (xs' @ (p, sp + sz, False) # ys)" and ap': "a \<noteq> p"
    then have m': "(a, sa, False) \<in> set xs' \<or> (a, sa, False) \<in> set ys" by auto
    then have "(a, sa, False) \<in> set (xs @ (x, sz, False) # ys)" using xs by auto
    moreover have "a \<noteq> x"
    proof
      assume "a = x"
      with m' have "x \<in> fst ` set xs' \<or> x \<in> fst ` set ys" by force
      moreover have "consistent s ((xs' @ [(p, sp, False)]) @ (x, sz, False) # ys) L" using c' by simp
      from not_in_others [OF this] have "x \<notin> fst ` set xs'" "x \<notin> fst ` set ys" by simp_all
      ultimately show False by blast
    qed
    ultimately have "a \<in> set L" by (rule listedD [OF li])
    then show "a \<in> set (remove1 p L)" using ap' by simp
  qed
  moreover have "frame s s5" using f4 f5 by (rule frame_trans)
  moreover have "(if \<not> ap then
              rbind (pull_free_block p s) (\<lambda>s4.
              rbind (block_size s4 p) (\<lambda>psz.
              rbind (block_size s4 x) (\<lambda>bsz.
              rbind (block_set_size p (psz + bsz) s4) (\<lambda>s5.
              Inr (p, s5)))))
            else Inr (x, s)) = Inr (p, s5)" using False pu r1 r2 m by simp
  ultimately show ?thesis using False c5 xs np4 by (intro exI [of _ s5]) simp
qed

lemma completeD: "complete bs L \<Longrightarrow> (a, sa, False) \<in> set bs \<Longrightarrow> a \<in> set L"
  by (fastforce simp: complete_def)

lemma completeI: "(\<And>a sa. (a, sa, False) \<in> set bs \<Longrightarrow> a \<in> set L) \<Longrightarrow> complete bs L"
  by (auto simp: complete_def)

lemma complete_listed: "complete bs L \<Longrightarrow> listed x bs L"
  by (rule listedI) (rule completeD)

lemma listed_complete: "listed x bs L \<Longrightarrow> complete bs (x # L)"
proof (rule completeI)
  fix a sa assume "listed x bs L" "(a, sa, False) \<in> set bs"
  then show "a \<in> set (x # L)" using listedD [of x bs L a sa] by (cases "a = x") simp_all
qed

lemma listed_remove1: "listed x bs L \<Longrightarrow> listed x bs (remove1 x L)"
proof (rule listedI)
  fix a sa assume "listed x bs L" "(a, sa, False) \<in> set bs" "a \<noteq> x"
  then show "a \<in> set (remove1 x L)" using listedD [of x bs L a sa] by simp
qed

lemma next_blk_cases: "\<exists>y sy ay. next_blk s ys = (y, sy, ay)"
  by (cases "next_blk s ys") simp

lemma coalesce_ok:
  assumes c: "consistent s (xs @ (x, sz, False) # ys) L" and xl: "x \<in> set L"
    and li: "listed x (xs @ (x, sz, False) # ys) L"
    and n: "next_blk s ys = (y, sy, ay)" and pv: "prev_blk s xs = (p, sp, ap)"
  shows "\<exists>s'. mm_coalesce x s = Inr s'
      \<and> consistent s' ((if ap then xs else butlast xs)
            @ ((if ap then x else p),
               (if ap then (if ay then sz else sz + sy) else sp + (if ay then sz else sz + sy)), False)
            # (if ay then ys else tl ys))
          ((if ap then x else p) # remove1 p (remove1 y (remove1 x L)))
      \<and> complete ((if ap then xs else butlast xs)
            @ ((if ap then x else p),
               (if ap then (if ay then sz else sz + sy) else sp + (if ay then sz else sz + sy)), False)
            # (if ay then ys else tl ys))
          ((if ap then x else p) # remove1 p (remove1 y (remove1 x L)))
      \<and> frame s s'"
proof -
  define nsz where "nsz = (if ay then sz else sz + sy)"
  define ys3 where "ys3 = (if ay then ys else tl ys)"
  define x' where "x' = (if ap then x else p)"
  define sz' where "sz' = (if ap then nsz else sp + nsz)"
  define xs' where "xs' = (if ap then xs else butlast xs)"
  define L1 where "L1 = remove1 x L"
  define L3 where "L3 = remove1 y L1"
  define L6 where "L6 = remove1 p L3"
  note nb = neighbours [OF c n pv]
  from pull_consistent [OF c xl] obtain s1 where p1: "pull_free_block x s = Inr s1"
    and c1: "consistent s1 (xs @ (x, sz, False) # ys) L1" and f1: "frame s s1"
    unfolding L1_def by blast
  have n1: "next_blk s1 ys = (y, sy, ay)" using next_blk_frame [OF f1] n by simp
  have pv1: "prev_blk s1 xs = (p, sp, ap)" using prev_blk_frame [OF f1] pv by simp
  note nb1 = neighbours [OF c1 n1 pv1]
  have nx1: "x \<notin> set L1" using consistent_distinct(2) [OF c] by (simp add: L1_def)
  have li1: "listed x (xs @ (x, sz, False) # ys) L1" unfolding L1_def by (rule listed_remove1 [OF li])
  from absorb_next_ok [OF c1 nx1 li1 n1] obtain s3 where
    a3: "(if \<not> ay then
              rbind (pull_free_block y s1) (\<lambda>s2.
              rbind (block_size s2 x) (\<lambda>bsz.
              rbind (block_size s2 y) (\<lambda>nsz.
              block_set_size x (bsz + nsz) s2)))
            else Inr s1) = Inr s3"
    and c3: "consistent s3 (xs @ (x, nsz, False) # ys3) L3"
    and li3: "listed x (xs @ (x, nsz, False) # ys3) L3"
    and f3: "frame s1 s3"
    unfolding nsz_def ys3_def L3_def by blast
  have pv3: "prev_blk s3 xs = (p, sp, ap)" using prev_blk_frame [OF f3] pv1 by simp
  from next_blk_cases obtain y3 sy3 ay3 where n3: "next_blk s3 ys3 = (y3, sy3, ay3)" by blast
  note nb3 = neighbours [OF c3 n3 pv3]
  have nx3: "x \<notin> set L3" using nx1 by (auto simp: L3_def dest: notin_set_remove1)
  from absorb_prev_ok [OF c3 nx3 li3 pv3] obtain s6 where
    a6: "(if \<not> ap then
              rbind (pull_free_block p s3) (\<lambda>s4.
              rbind (block_size s4 p) (\<lambda>psz.
              rbind (block_size s4 x) (\<lambda>bsz.
              rbind (block_set_size p (psz + bsz) s4) (\<lambda>s5.
              Inr (p, s5)))))
            else Inr (x, s3)) = Inr (x', s6)"
    and c6: "consistent s6 (xs' @ (x', sz', False) # ys3) L6"
    and li6: "listed x' (xs' @ (x', sz', False) # ys3) L6"
    and nl6: "x' \<notin> set L6"
    and f6: "frame s3 s6"
    unfolding x'_def sz'_def xs'_def L6_def by blast
  have "(x', sz', False) \<in> set (xs' @ (x', sz', False) # ys3)" by simp
  from insert_consistent [OF c6 this nl6] obtain s' where
    ins: "insert_free_block x' s6 = Inr s'"
    and c': "consistent s' (xs' @ (x', sz', False) # ys3) (x' # L6)"
    and f': "frame s6 s'" by blast
  have "mm_coalesce x s = Inr s'"
    unfolding mm_coalesce_def using nb(1,2) p1 nb1(3) a3 nb3(4) a6 ins by simp
  moreover have "frame s s'" using f1 f3 f6 f' by (blast intro: frame_trans)
  moreover have "complete (xs' @ (x', sz', False) # ys3) (x' # L6)" by (rule listed_complete [OF li6])
  ultimately show ?thesis using c'
    unfolding nsz_def ys3_def x'_def sz'_def xs'_def L1_def L3_def L6_def by blast
qed

lemma naf_append:
  "no_adjacent_free pa (xs @ ys) \<longleftrightarrow>
     no_adjacent_free pa xs \<and> no_adjacent_free (last_allocated pa xs) ys"
  by (induction xs arbitrary: pa) (auto simp: last_allocated_def)

lemma naf_mono: "no_adjacent_free False ys \<Longrightarrow> no_adjacent_free pa ys"
  by (cases ys) auto

lemma naf_place_at:
  "no_adjacent_free pa xs \<Longrightarrow> no_adjacent_free False ys \<Longrightarrow>
   no_adjacent_free pa (xs @ (if c then [(x, r, True), (x2, r2, False)] else [(x, sz, True)]) @ ys)"
  by (auto simp: naf_append last_allocated_def naf_mono)

lemma naf_free_block:
  "no_adjacent_free pa (xs @ (x, sz, False) # ys) \<Longrightarrow>
   no_adjacent_free pa xs \<and> no_adjacent_free False ys"
  by (auto simp: naf_append)

lemma naf_merged:
  assumes i2: "no_adjacent_free True (xs @ (x, sz, True) # ys)"
    and n: "next_blk s ys = (y, sy, ay)" and pv: "prev_blk s xs = (p, sp, ap)"
  shows "no_adjacent_free True (merged (p, sp, ap) xs x sz ys (y, sy, ay))"
proof -
  from i2 have a: "no_adjacent_free True xs" and b: "no_adjacent_free True ys"
    by (auto simp: naf_append)
  have left: "no_adjacent_free True (if ap then xs else butlast xs)
      \<and> last_allocated True (if ap then xs else butlast xs)"
  proof (cases ap)
    case True
    with pv have "last_allocated True xs"
      by (cases xs rule: rev_cases) (auto simp: prev_blk_def last_allocated_def)
    with a True show ?thesis by simp
  next
    case False
    with pv have "prev_blk s xs = (p, sp, False)" by simp
    from prev_blk_interior [OF this] obtain xs' where xs: "xs = xs' @ [(p, sp, False)]" by blast
    with a have "no_adjacent_free True xs'" "last_allocated True xs'" by (auto simp: naf_append)
    with False xs show ?thesis by simp
  qed
  have right: "no_adjacent_free False (if ay then ys else tl ys)"
  proof (cases ay)
    case True
    with n b show ?thesis by (cases ys) (auto simp: next_blk_def)
  next
    case False
    with n have "ys = (y, sy, False) # tl ys" by (cases ys) (auto simp: next_blk_def)
    with b have "no_adjacent_free True ((y, sy, False) # tl ys)" by simp
    with False show ?thesis by simp
  qed
  from left right show ?thesis by (simp add: merged_def naf_append)
qed

lemma allocated_not_listed:
  assumes c: "consistent s bs L" and b: "(x, sz, True) \<in> set bs"
  shows "x \<notin> set L"
proof
  assume "x \<in> set L"
  from ring_block [OF c this] obtain sz' where "(x, sz', False) \<in> set bs" by blast
  from eq_key_imp_eq_value [OF consistent_distinct(1) [OF c] this b] show False by simp
qed

lemma free_ok:
  assumes c: "consistent s (xs @ (x, sz, True) # ys) L"
    and cm: "complete (xs @ (x, sz, True) # ys) L"
    and n: "next_blk s ys = (y, sy, ay)" and pv: "prev_blk s xs = (p, sp, ap)"
  shows "\<exists>s'. mm_free (payload x) s = Inr s'
      \<and> consistent s' (merged (p, sp, ap) xs x sz ys (y, sy, ay))
          (merged_list (p, sp, ap) x (y, sy, ay) L)
      \<and> complete (merged (p, sp, ap) xs x sz ys (y, sy, ay))
          (merged_list (p, sp, ap) x (y, sy, ay) L)
      \<and> frame s s'"
proof -
  have nl: "x \<notin> set L" by (rule allocated_not_listed [OF c, of _ sz]) simp
  have rd: "block_allocated s x = Inr True"
    by (rule read_block(2) [OF c, of x sz True]) (simp add: all_blocks_def)
  from set_allocated_consistent [OF c nl, of False] obtain s1 where
    e1: "block_set_allocated x False s = Inr s1"
    and c1: "consistent s1 (xs @ (x, sz, False) # ys) L" and f1: "frame s s1" by blast
  have "(x, sz, False) \<in> set (xs @ (x, sz, False) # ys)" by simp
  from insert_consistent [OF c1 this nl] obtain s2 where
    e2: "insert_free_block x s1 = Inr s2"
    and c2: "consistent s2 (xs @ (x, sz, False) # ys) (x # L)" and f2: "frame s1 s2" by blast
  have f02: "frame s s2" using f1 f2 by (rule frame_trans)
  have li2: "listed x (xs @ (x, sz, False) # ys) (x # L)"
  proof (rule listedI)
    fix a sa assume "(a, sa, False) \<in> set (xs @ (x, sz, False) # ys)" "a \<noteq> x"
    then have "(a, sa, False) \<in> set (xs @ (x, sz, True) # ys)" by auto
    from completeD [OF cm this] show "a \<in> set (x # L)" by simp
  qed
  have n2: "next_blk s2 ys = (y, sy, ay)" using next_blk_frame [OF f02] n by simp
  have pv2: "prev_blk s2 xs = (p, sp, ap)" using prev_blk_frame [OF f02] pv by simp
  have "x \<in> set (x # L)" by simp
  from coalesce_ok [OF c2 this li2 n2 pv2] obtain s' where
    e3: "mm_coalesce x s2 = Inr s'"
    and c3: "consistent s' (merged (p, sp, ap) xs x sz ys (y, sy, ay))
          (merged_list (p, sp, ap) x (y, sy, ay) (x # L))"
    and cm3: "complete (merged (p, sp, ap) xs x sz ys (y, sy, ay))
          (merged_list (p, sp, ap) x (y, sy, ay) (x # L))"
    and f3: "frame s2 s'"
    unfolding merged_def merged_list_def prod.case by blast
  have ml: "merged_list (p, sp, ap) x (y, sy, ay) (x # L) = merged_list (p, sp, ap) x (y, sy, ay) L"
    using nl by (simp add: merged_list_def remove1_idem)
  have "mm_free (payload x) s = Inr s'"
    using rd e1 e2 e3 by (simp add: mm_free_def payload_def payload_to_block_def)
  moreover have "frame s s'" using f02 f3 by (rule frame_trans)
  ultimately show ?thesis using c3 cm3 unfolding ml by blast
qed

lemma epilogue_not_block:
  assumes c: "consistent s bs L"
  shows "epilogue s \<notin> fst ` set bs"
proof
  assume "epilogue s \<in> fst ` set bs"
  then obtain sz al where b: "(epilogue s, sz, al) \<in> set bs" by force
  from layout_bounds [OF sentinels(3) [OF c] b] show False by auto
qed

lemma place_keeps:
  assumes c: "consistent s bs L" and xl: "x \<in> set L" and cm: "complete bs L"
  shows "complete (place req x bs) (place_list req x bs L)"
    and "no_adjacent_free True bs \<Longrightarrow> no_adjacent_free True (place req x bs)"
proof -
  from ring_block [OF c xl] obtain sz where b: "(x, sz, False) \<in> set bs" by blast
  then obtain xs ys where bs: "bs = xs @ (x, sz, False) # ys" by (auto simp: in_set_conv_decomp)
  note c' = c [unfolded bs]
  have szq: "blk_size bs x = sz" by (rule blk_size_eq [OF c b])
  have pl: "place req x bs = xs @ (if unat req + 256 \<le> unat sz
           then [(x, req, True), (x + req, sz - req, False)] else [(x, sz, True)]) @ ys"
    unfolding bs by (rule place_at [OF not_in_others(1) [OF c']])
  show "complete (place req x bs) (place_list req x bs L)"
  proof (rule completeI)
    fix a sa assume m: "(a, sa, False) \<in> set (place req x bs)"
    show "a \<in> set (place_list req x bs L)"
    proof (cases "(a, sa, False) \<in> set xs \<or> (a, sa, False) \<in> set ys")
      case True
      then have "(a, sa, False) \<in> set bs" unfolding bs by auto
      from completeD [OF cm this] have "a \<in> set L" .
      moreover have "a \<noteq> x"
      proof
        assume "a = x"
        with True have "x \<in> fst ` set xs \<or> x \<in> fst ` set ys" by force
        with not_in_others [OF c'] show False by blast
      qed
      ultimately show ?thesis by (simp add: place_list_def)
    next
      case False
      with m show ?thesis unfolding pl by (auto simp: place_list_def szq split: if_splits)
    qed
  qed
  assume "no_adjacent_free True bs"
  from naf_free_block [OF this [unfolded bs]] show "no_adjacent_free True (place req x bs)"
    unfolding pl by (intro naf_place_at) simp_all
qed

lemma place_extension_keeps:
  assumes c: "consistent s bs L" and cm: "complete bs L"
  shows "complete (place req (epilogue s) (bs @ [(epilogue s, n, False)]))
           (place_list req (epilogue s) (bs @ [(epilogue s, n, False)]) (epilogue s # L))"
    and "no_adjacent_free True bs \<Longrightarrow>
         no_adjacent_free True (place req (epilogue s) (bs @ [(epilogue s, n, False)]))"
proof -
  define E where "E = epilogue s"
  have ne: "E \<notin> fst ` set bs" unfolding E_def by (rule epilogue_not_block [OF c])
  have pl: "place req E (bs @ [(E, n, False)]) = bs @ (if unat req + 256 \<le> unat n
           then [(E, req, True), (E + req, n - req, False)] else [(E, n, True)]) @ []"
    by (rule place_at [OF ne])
  have "map_of (bs @ [(E, n, False)]) E = Some (n, False)"
    using ne by (simp add: map_add_Some_iff map_of_eq_None_iff)
  then have szq: "blk_size (bs @ [(E, n, False)]) E = n" by (simp add: blk_size_def)
  have nl: "E \<notin> set L"
  proof
    assume "E \<in> set L"
    from ring_block [OF c this] ne show False by force
  qed
  have "complete (place req E (bs @ [(E, n, False)])) (place_list req E (bs @ [(E, n, False)]) (E # L))"
  proof (rule completeI)
    fix a sa assume m: "(a, sa, False) \<in> set (place req E (bs @ [(E, n, False)]))"
    show "a \<in> set (place_list req E (bs @ [(E, n, False)]) (E # L))"
    proof (cases "(a, sa, False) \<in> set bs")
      case True
      from completeD [OF cm this] have "a \<in> set L" .
      then show ?thesis by (simp add: place_list_def)
    next
      case False
      with m show ?thesis unfolding pl by (auto simp: place_list_def szq split: if_splits)
    qed
  qed
  then show "complete (place req (epilogue s) (bs @ [(epilogue s, n, False)]))
           (place_list req (epilogue s) (bs @ [(epilogue s, n, False)]) (epilogue s # L))"
    unfolding E_def .
  assume "no_adjacent_free True bs"
  then have "no_adjacent_free True (place req E (bs @ [(E, n, False)]))"
    unfolding pl by (intro naf_place_at) simp_all
  then show "no_adjacent_free True (place req (epilogue s) (bs @ [(epilogue s, n, False)]))"
    unfolding E_def .
qed

section \<open>The concrete heaps are consistent\<close>

lemmas inv_defs = consistent_def core_def heap_at_def all_blocks_def tags_ok_def ring_def cyc_def
  big_free_def tag_def NULL_def complete_def

lemma heap_full_reached: "mm_init (boot 4128) = Inr (0, heap_full)"
  by (simp add: model_defs scenario_defs heap_full_def)

lemma heap_split_reached: "and_then (mm_init (boot 100000)) (mm_malloc 1 32) = Inr (4120, heap_split)"
  by (simp add: model_defs scenario_defs heap_split_def fun_eq_iff)

lemma heap_marked_reached:
  "rbind (block_set_allocated 4160 False heap_three) (insert_free_block 4160) = Inr heap_marked"
  by (simp add: model_defs heap_three_def heap_marked_def fun_eq_iff)

lemma heap_split_marked_reached:
  "rbind (block_set_allocated 4112 False heap_split) (insert_free_block 4112)
   = Inr heap_split_marked"
  by (simp add: model_defs heap_split_def heap_split_marked_def fun_eq_iff)

lemma heap_split_marked_consistent:
  "consistent heap_split_marked [(4112, 48, False), (4160, 976, False)] [4112, 4160]"
  by (simp add: inv_defs heap_split_marked_def)

lemma heap_three_consistent:
  "consistent heap_three [(4112, 48, False), (4160, 48, True), (4208, 928, True)] [4112]"
  by (simp add: inv_defs heap_three_def)

lemma heap_fresh_consistent: "consistent heap_fresh [] []"
  by (simp add: inv_defs heap_fresh_def)

lemma heap_full_consistent: "consistent heap_full [] []"
  by (simp add: inv_defs heap_full_def)

lemma heap_split_consistent:
  "consistent heap_split [(4112, 48, True), (4160, 976, False)] [4160]"
  by (simp add: inv_defs heap_split_def)

lemma heap_marked_consistent:
  "consistent heap_marked [(4112, 48, False), (4160, 48, False), (4208, 928, True)] [4160, 4112]"
  by (simp add: inv_defs heap_marked_def)

lemma heap_extended_consistent:
  "consistent heap_extended [(4112, 48, True), (4160, 976, False), (5136, 2000, False)] [5136, 4160]"
  by (simp add: inv_defs heap_extended_def)

section \<open>What a call returns\<close>

lemma payload_facts:
  assumes c: "consistent s bs L" and b: "(x, sz, al) \<in> set bs"
  shows "payload x \<noteq> NULL" "payload_to_block (payload x) = x"
proof -
  from layout_bounds [OF sentinels(3) [OF c] b]
  have "unat x + 8 \<le> unat (epilogue s)" by simp
  from unat_add8 [OF this] have "unat (x + 8) \<noteq> unat (0 :: 64 word)" by simp
  then have "x + 8 \<noteq> 0" by (rule neq_unat)
  then show "payload x \<noteq> NULL" by (simp add: payload_def NULL_def WORD_SIZE_def)
  show "payload_to_block (payload x) = x" by (simp add: payload_def payload_to_block_def)
qed

lemma realloc_fits:
  assumes c: "consistent s bs L" and b: "(x, bsz, al) \<in> set bs"
    and pos: "sz \<noteq> 0" and nneg: "\<not> int_negative sz" and fit: "unat sz + 16 \<le> unat bsz"
  shows "mm_realloc fuel (payload x) sz s = Inr (payload x, s)"
proof -
  note bd = not_negative_bound [OF nneg]
  then have "unat sz + 7 < 2 ^ 64" by simp
  from unat_align [OF this] have ua: "unat (align sz) = 8 * ((unat sz + 7) div 8)" .
  have d8: "8 dvd unat bsz"
    by (rule blk_facts(5) [OF consistent_heap [OF c] in_all_blocks [OF b]])
  then obtain k where k: "unat bsz = 8 * k" by (auto simp: dvd_def)
  have le: "unat (align sz) + 16 \<le> unat bsz" using fit unfolding ua k by arith
  from unat_add16 [OF le] have "unat (align sz + 16) \<le> unat bsz" using le by simp
  then have fits: "align sz + TAGS_SIZE \<le> bsz"
    by (simp add: word_le_nat_alt TAGS_SIZE_def WORD_SIZE_def)
  have rd: "block_size s x = Inr bsz" by (rule read_block(1) [OF c in_all_blocks [OF b]])
  note pf = payload_facts [OF c b]
  show ?thesis
    unfolding mm_realloc_def realloc_grow_def Let_def using nneg pos pf rd fits by simp
qed

lemma placed_block:
  assumes "x \<notin> fst ` set xs" and "req \<le> sz"
  shows "\<exists>r. (x, r, True) \<in> set (place req x (xs @ (x, sz, al) # ys)) \<and> req \<le> r"
  unfolding place_at [OF assms(1)] using assms(2) by auto

lemma first_fit_Some:
  assumes "first_fit req bs L = Some x"
  shows "x \<in> set L" "req \<le> blk_size bs x"
  using assms by (auto simp: first_fit_def find_Some_iff)

lemma extension_ge:
  assumes nm: "\<not> int_negative (growth req s)"
  shows "req \<le> extension (growth req s)"
proof -
  have "unat req \<le> unat (growth req s)" using growth_ge [of req s] by (simp add: word_le_nat_alt)
  also have "\<dots> \<le> unat (extension (growth req s))" by (rule extension_facts(3) [OF nm])
  finally show ?thesis by (simp add: word_le_nat_alt)
qed

lemma extension_growth:
  assumes nneg: "\<not> int_negative sz0" and ch: "8 dvd unat (chunksize s)"
    and nm: "\<not> int_negative (growth (request sz0) s)"
  shows "extension (growth (request sz0) s) = growth (request sz0) s"
proof -
  define mx where "mx = growth (request sz0) s"
  note rf = request_facts [OF nneg]
  have d: "8 dvd unat mx" using rf(1) ch by (simp add: mx_def growth_def)
  have "unat (request sz0) \<le> unat mx"
    using growth_ge [of "request sz0" s] by (simp add: word_le_nat_alt mx_def)
  with rf(2) have "32 \<le> unat mx" by simp
  then have "\<not> mx < MINBLOCKSIZE" by (simp add: word_less_nat_alt MINBLOCKSIZE_def WORD_SIZE_def)
  then have "extension mx = align mx" by (simp add: extension_def)
  also have "\<dots> = mx" by (rule align_facts(4) [OF not_negative_bound [OF nm [folded mx_def]] d])
  finally show ?thesis unfolding mx_def .
qed

lemma malloc_block:
  assumes c: "consistent s bs L" and nneg: "\<not> int_negative sz0" and fuel: "length L < fuel"
    and req: "req = request sz0" and mx: "mx = growth req s" and n: "n = extension mx"
  shows "case first_fit req bs L of
           Some x \<Rightarrow>
             (\<exists>s' r. mm_malloc fuel sz0 s = Inr (payload x, s') \<and> payload x \<noteq> NULL
                \<and> block_allocated s' x = Inr True \<and> block_size s' x = Inr r \<and> req \<le> r
                \<and> frame s s')
         | None \<Rightarrow>
             if int_negative mx then mm_malloc fuel sz0 s = Inl AssertFailed
             else if unat (mem_brk s) + unat n \<le> unat (mem_max_addr s)
             then (\<exists>s' r. mm_malloc fuel sz0 s = Inr (payload (epilogue s), s')
                \<and> payload (epilogue s) \<noteq> NULL
                \<and> block_allocated s' (epilogue s) = Inr True
                \<and> block_size s' (epilogue s) = Inr r \<and> req \<le> r
                \<and> grown s n s')
             else mm_malloc fuel sz0 s = Inr (NULL, s)"
proof (cases "first_fit req bs L")
  case (Some x)
  note ff = first_fit_Some [OF Some]
  from malloc_spec [OF c nneg fuel req mx n] Some obtain s' where
    e: "mm_malloc fuel sz0 s = Inr (payload x, s')"
    and c': "consistent s' (place req x bs) (place_list req x bs L)" and f: "frame s s'" by auto
  from ring_block [OF c ff(1)] obtain sz where b: "(x, sz, False) \<in> set bs" by blast
  then obtain xs ys where bs: "bs = xs @ (x, sz, False) # ys" by (auto simp: in_set_conv_decomp)
  have "req \<le> sz" using ff(2) blk_size_eq [OF c b] by simp
  from placed_block [where ys = ys and al = False, OF not_in_others(1) [OF c [unfolded bs]] this]
  obtain r where m: "(x, r, True) \<in> set (place req x bs)" and rr: "req \<le> r" unfolding bs by blast
  note rd = read_block(1,2) [OF c' in_all_blocks [OF m]] and pf = payload_facts(1) [OF c' m]
  from e pf rd rr f have "\<exists>s' r. mm_malloc fuel sz0 s = Inr (payload x, s') \<and> payload x \<noteq> NULL
                \<and> block_allocated s' x = Inr True \<and> block_size s' x = Inr r \<and> req \<le> r
                \<and> frame s s'" by blast
  with Some show ?thesis by simp
next
  case None
  show ?thesis
  proof (cases "int_negative mx")
    case True
    with malloc_spec [OF c nneg fuel req mx n] None show ?thesis by simp
  next
    case nm: False
    show ?thesis
    proof (cases "unat (mem_brk s) + unat n \<le> unat (mem_max_addr s)")
      case False
      with malloc_spec [OF c nneg fuel req mx n] None nm show ?thesis by simp
    next
      case True
      define E where "E = epilogue s"
      from malloc_spec [OF c nneg fuel req mx n] None nm True obtain s' where
        e: "mm_malloc fuel sz0 s = Inr (payload E, s')"
        and c': "consistent s' (place req E (bs @ [(E, n, False)]))
                      (place_list req E (bs @ [(E, n, False)]) (E # L))"
        and g: "grown s n s'" unfolding E_def by auto
      have "req \<le> n" unfolding n mx by (rule extension_ge [OF nm [unfolded mx]])
      from placed_block [where ys = "[]" and al = False, OF epilogue_not_block [OF c] this, folded E_def]
      obtain r where m: "(E, r, True) \<in> set (place req E (bs @ [(E, n, False)]))"
        and rr: "req \<le> r" by blast
      note rd = read_block(1,2) [OF c' in_all_blocks [OF m]] and pf = payload_facts(1) [OF c' m]
      from e pf rd rr g have "\<exists>s' r. mm_malloc fuel sz0 s = Inr (payload E, s')
                \<and> payload E \<noteq> NULL
                \<and> block_allocated s' E = Inr True
                \<and> block_size s' E = Inr r \<and> req \<le> r
                \<and> grown s n s'" by blast
      with None nm True show ?thesis by (simp add: E_def)
    qed
  qed
qed

lemma malloc_zero_padded: "mm_malloc fuel 0 s = mm_malloc fuel MINBLOCKSIZE s"
  by (simp add: mm_malloc_def int_negative_def MINBLOCKSIZE_def WORD_SIZE_def)

lemma split_cond:
  assumes "req \<le> sz"
  shows "8 * MINBLOCKSIZE \<le> sz - req \<longleftrightarrow> unat req + 256 \<le> unat sz"
proof -
  from assms have us: "unat (sz - req) = unat sz - unat req" by (simp add: unat_sub)
  have le': "unat req \<le> unat sz" using assms by (simp add: word_le_nat_alt)
  show ?thesis using us le' by (auto simp add: word_le_nat_alt MINBLOCKSIZE_def WORD_SIZE_def)
qed

lemma placement:
  assumes c: "consistent s bs L" and nneg: "\<not> int_negative sz0" and fuel: "length L < fuel"
    and cand: "candidate sz0 s bs L = Some (x, xs @ (x, sz, False) # ys, L0)"
  shows "\<exists>s'. mm_malloc fuel sz0 s = Inr (payload x, s')
     \<and> (if 8 * MINBLOCKSIZE \<le> sz - request sz0
        then consistent s' (xs @ (x, request sz0, True) # (x + request sz0, sz - request sz0, False) # ys)
               ((x + request sz0) # remove1 x L0)
        else consistent s' (xs @ (x, sz, True) # ys) (remove1 x L0))"
proof -
  define req where "req = request sz0"
  define mx where "mx = growth req s"
  define n where "n = extension mx"
  note ms = malloc_spec [OF c nneg fuel req_def mx_def n_def]
  define bs0 where "bs0 = xs @ (x, sz, False) # ys"
  have main: "\<exists>s'. mm_malloc fuel sz0 s = Inr (payload x, s')
      \<and> consistent s' (place req x bs0) (place_list req x bs0 L0)
      \<and> x \<notin> fst ` set xs \<and> blk_size bs0 x = sz \<and> req \<le> sz"
  proof (cases "first_fit req bs L")
    case (Some x')
    with cand have eq: "x' = x" "bs = bs0" "L0 = L"
      by (simp_all add: candidate_def req_def bs0_def)
    note ff = first_fit_Some [OF Some [unfolded eq]]
    note c0 = c [unfolded eq(2)]
    have b: "(x, sz, False) \<in> set bs0" by (simp add: bs0_def)
    have szq: "blk_size bs0 x = sz" by (rule blk_size_eq [OF c0 b])
    have "x \<notin> fst ` set xs" by (rule not_in_others(1) [OF c0 [unfolded bs0_def]])
    moreover have "req \<le> sz" using ff(2) szq eq(2) by simp
    ultimately show ?thesis using ms Some eq szq by auto
  next
    case None
    with cand have nm: "\<not> int_negative mx"
      and room: "unat (mem_brk s) + unat n \<le> unat (mem_max_addr s)"
      and eq: "x = epilogue s" "bs0 = bs @ [(x, n, False)]" "L0 = x # L"
      by (auto simp add: candidate_def req_def [symmetric] mx_def [symmetric] n_def [symmetric]
            bs0_def split: if_splits)
    have ne: "x \<notin> fst ` set bs" unfolding eq(1) by (rule epilogue_not_block [OF c])
    have "ys = [] \<and> xs = bs \<and> sz = n"
    proof (cases ys rule: rev_cases)
      case Nil
      with eq(2) show ?thesis by (simp add: bs0_def)
    next
      case (snoc ys' b)
      with eq(2) have "bs = xs @ (x, sz, False) # ys'" by (simp add: bs0_def)
      with ne show ?thesis by force
    qed
    then have xs: "xs = bs" and sz: "sz = n" by simp_all
    have "map_of (bs @ [(x, n, False)]) x = Some (n, False)"
      using ne by (simp add: map_add_Some_iff map_of_eq_None_iff)
    then have szq: "blk_size bs0 x = sz" by (simp add: blk_size_def eq(2) sz)
    have "req \<le> n" unfolding n_def mx_def by (rule extension_ge [OF nm [unfolded mx_def]])
    then show ?thesis using ms None nm room eq szq ne xs sz by auto
  qed
  then obtain s' where e: "mm_malloc fuel sz0 s = Inr (payload x, s')"
    and c': "consistent s' (place req x bs0) (place_list req x bs0 L0)"
    and nx: "x \<notin> fst ` set xs" and szq: "blk_size bs0 x = sz" and le: "req \<le> sz" by blast
  note pl = place_at [OF nx, of req sz False ys, folded bs0_def]
  show ?thesis
  proof (cases "unat req + 256 \<le> unat sz")
    case True
    with c' have "consistent s' (xs @ (x, req, True) # (x + req, sz - req, False) # ys)
               ((x + req) # remove1 x L0)" by (simp add: pl place_list_def szq)
    with e True show ?thesis using split_cond [OF le] unfolding req_def by simp
  next
    case False
    with c' have "consistent s' (xs @ (x, sz, True) # ys) (remove1 x L0)"
      by (simp add: pl place_list_def szq)
    with e False show ?thesis using split_cond [OF le] unfolding req_def by simp
  qed
qed

lemmas size_defs = request_def growth_def extension_def first_fit_def blk_size_def candidate_def
  align_def int_negative_def MINBLOCKSIZE_def TAGS_SIZE_def WORD_SIZE_def payload_def NULL_def

lemma malloc_keeps:
  assumes c: "consistent s bs L" and cm: "complete bs L" and i2: "no_adjacent_free True bs"
    and fuel: "length L < fuel" and nm: "\<not> int_negative (growth (request sz0) s)"
  shows "\<exists>p s' bs' L'. mm_malloc fuel sz0 s = Inr (p, s')
      \<and> consistent s' bs' L' \<and> complete bs' L' \<and> no_adjacent_free True bs'"
proof (cases "int_negative sz0")
  case True
  from malloc_negative [OF True] c cm i2 show ?thesis by blast
next
  case nneg: False
  note ms = malloc_spec [OF c nneg fuel refl refl refl]
  show ?thesis
  proof (cases "first_fit (request sz0) bs L")
    case (Some x)
    note xl = first_fit_Some(1) [OF Some]
    from ms Some obtain s' where "mm_malloc fuel sz0 s = Inr (payload x, s')"
      "consistent s' (place (request sz0) x bs) (place_list (request sz0) x bs L)" by auto
    with place_keeps [OF c xl cm] i2 show ?thesis by blast
  next
    case None
    show ?thesis
    proof (cases "unat (mem_brk s) + unat (extension (growth (request sz0) s)) \<le> unat (mem_max_addr s)")
      case True
      from ms None nm True obtain s' where "mm_malloc fuel sz0 s = Inr (payload (epilogue s), s')"
        "consistent s' (place (request sz0) (epilogue s)
            (bs @ [(epilogue s, extension (growth (request sz0) s), False)]))
          (place_list (request sz0) (epilogue s)
            (bs @ [(epilogue s, extension (growth (request sz0) s), False)]) (epilogue s # L))"
        by auto
      with place_extension_keeps [OF c cm] i2 show ?thesis by blast
    next
      case False
      with ms None nm have "mm_malloc fuel sz0 s = Inr (NULL, s)" by simp
      with c cm i2 show ?thesis by blast
    qed
  qed
qed

section \<open>The claims\<close>

text \<open>
  C1 (the code departs from the claim). On the fresh heap \<^verbatim>\<open>mm_malloc(32)\<close> returns the
  payload 4120. \<^verbatim>\<open>mm_realloc(NULL, 32)\<close> makes the same allocation, drops the pointer, and
  goes on to read the header of the block of the null pointer, at address \<open>-8\<close>: it does
  not return the payload of a new block.
\<close>

theorem realloc_null_falls_through:
  "returned (mm_malloc 1 32 heap_fresh) = Inr 4120
   \<and> mm_realloc 1 NULL 32 heap_fresh = Inl (Fault (- 8))"
  by (simp add: model_defs scenario_defs heap_fresh_def)

text \<open>
  C2 (the code departs from the claim). In \<open>heap_three\<close> the payload at 4168 holds 101 to
  104 and the block before it is free. \<^verbatim>\<open>mm_realloc(4168, 200)\<close> merges the block with its
  free predecessor, finds the result still too small, and falls back to a fresh block at
  5144; it copies the right number of bytes, but from the base of the merged block, where
  the live bytes were never moved. The caller gets the old links of the free block.
\<close>

theorem realloc_fallback_copies_stale_bytes:
  "payload_words 4 (Inr (4168, heap_three)) = Inr [101, 102, 103, 104]
   \<and> returned (mm_realloc 1 4168 200 heap_three) = Inr 5144
   \<and> payload_words 4 (mm_realloc 1 4168 200 heap_three) = Inr [4112, 4112, 0, 0]"
  by (simp add: model_defs scenario_defs heap_three_def upt_rec)

text \<open>
  C3 (amended). In a consistent heap in which every free block is on the free list and
  no two adjacent blocks are both free, \<^verbatim>\<open>mm_free\<close> of the payload of an allocated block
  returns, and so does \<^verbatim>\<open>mm_malloc\<close> (with or without an extension of the heap, as long as
  the assertion of \<^verbatim>\<open>mm_extend_heap\<close> holds); in the heap they leave, again every free
  block is on the free list and no two adjacent blocks are both free. The claim as
  written also covers the return of \<^verbatim>\<open>mm_extend_heap\<close> itself, where it fails: when the
  last block before the Epilogue is free and \<^verbatim>\<open>mem_sbrk\<close> has room, \<^verbatim>\<open>mm_extend_heap\<close> returns
  a heap whose last two blocks are both free (third part of the theorem; on \<open>heap_split\<close>
  further down).
\<close>

theorem release_and_allocate_keep_blocks_coalesced:
  assumes c: "consistent s bs L" and cm: "complete bs L" and i2: "no_adjacent_free True bs"
  shows "(bs = xs @ (x, sz, True) # ys \<longrightarrow>
           (\<exists>s'. mm_free (payload x) s = Inr s'
              \<and> consistent s' (merged (prev_blk s xs) xs x sz ys (next_blk s ys))
                  (merged_list (prev_blk s xs) x (next_blk s ys) L)
              \<and> complete (merged (prev_blk s xs) xs x sz ys (next_blk s ys))
                  (merged_list (prev_blk s xs) x (next_blk s ys) L)
              \<and> no_adjacent_free True (merged (prev_blk s xs) xs x sz ys (next_blk s ys))))
      \<and> (length L < fuel \<and> \<not> int_negative (growth (request sz0) s) \<longrightarrow>
           (\<exists>p s' bs' L'. mm_malloc fuel sz0 s = Inr (p, s')
              \<and> consistent s' bs' L' \<and> complete bs' L' \<and> no_adjacent_free True bs'))
      \<and> (\<not> int_negative size0
           \<and> unat (mem_brk s) + unat (extension size0) \<le> unat (mem_max_addr s)
           \<and> \<not> last_allocated True bs \<longrightarrow>
           (\<exists>s'. mm_extend_heap size0 s = Inr (epilogue s, s')
              \<and> consistent s' (bs @ [(epilogue s, extension size0, False)]) (epilogue s # L)
              \<and> \<not> no_adjacent_free True (bs @ [(epilogue s, extension size0, False)])))"
proof (intro conjI impI)
  assume b: "bs = xs @ (x, sz, True) # ys"
  obtain y sy ay where n: "next_blk s ys = (y, sy, ay)" by (cases "next_blk s ys") simp
  obtain p sp ap where pv: "prev_blk s xs = (p, sp, ap)" by (cases "prev_blk s xs") simp
  from free_ok [OF c [unfolded b] cm [unfolded b] n pv] naf_merged [OF i2 [unfolded b] n pv]
  show "\<exists>s'. mm_free (payload x) s = Inr s'
              \<and> consistent s' (merged (prev_blk s xs) xs x sz ys (next_blk s ys))
                  (merged_list (prev_blk s xs) x (next_blk s ys) L)
              \<and> complete (merged (prev_blk s xs) xs x sz ys (next_blk s ys))
                  (merged_list (prev_blk s xs) x (next_blk s ys) L)
              \<and> no_adjacent_free True (merged (prev_blk s xs) xs x sz ys (next_blk s ys))"
    unfolding n pv by blast
next
  assume "length L < fuel \<and> \<not> int_negative (growth (request sz0) s)"
  then show "\<exists>p s' bs' L'. mm_malloc fuel sz0 s = Inr (p, s')
              \<and> consistent s' bs' L' \<and> complete bs' L' \<and> no_adjacent_free True bs'"
    using malloc_keeps [OF c cm i2] by blast
next
  assume a: "\<not> int_negative size0
           \<and> unat (mem_brk s) + unat (extension size0) \<le> unat (mem_max_addr s)
           \<and> \<not> last_allocated True bs"
  then have nneg: "\<not> int_negative size0"
    and room: "unat (mem_brk s) + unat (extension size0) \<le> unat (mem_max_addr s)"
    and lf: "\<not> last_allocated True bs" by simp_all
  from extend_ok [OF c nneg refl room] obtain s' where
    "mm_extend_heap size0 s = Inr (epilogue s, s')"
    "consistent s' (bs @ [(epilogue s, extension size0, False)]) (epilogue s # L)" by blast
  moreover have "\<not> no_adjacent_free True (bs @ [(epilogue s, extension size0, False)])"
    using lf by (simp add: naf_append)
  ultimately show "\<exists>s'. mm_extend_heap size0 s = Inr (epilogue s, s')
              \<and> consistent s' (bs @ [(epilogue s, extension size0, False)]) (epilogue s # L)
              \<and> \<not> no_adjacent_free True (bs @ [(epilogue s, extension size0, False)])"
    by blast
qed

text \<open>
  On \<open>heap_three\<close>: releasing 4168 merges its block with the free block before it, and
  allocating 2000 bytes extends the heap. On \<open>heap_split\<close>: an extension by 2000 bytes.
\<close>

theorem release_and_allocate_keep_blocks_coalesced_witness:
  "(\<exists>s'. mm_free 4168 heap_three = Inr s'
      \<and> consistent s' [(4112, 96, False), (4208, 928, True)] [4112]
      \<and> complete [(4112, 96, False), (4208, 928, True)] [4112]
      \<and> no_adjacent_free True [(4112, 96, False), (4208, 928, True)])
   \<and> (\<exists>p s' bs' L'. mm_malloc 2 2000 heap_three = Inr (p, s')
      \<and> consistent s' bs' L' \<and> complete bs' L' \<and> no_adjacent_free True bs')
   \<and> (\<exists>s'. mm_extend_heap 2000 heap_split = Inr (5136, s')
      \<and> consistent s' [(4112, 48, True), (4160, 976, False), (5136, 2000, False)] [5136, 4160]
      \<and> \<not> no_adjacent_free True [(4112, 48, True), (4160, 976, False), (5136, 2000, False)])"
proof -
  have cm: "complete [(4112, 48, False), (4160, 48, True), (4208, 928, True)] [4112]"
    by (simp add: complete_def)
  have i2: "no_adjacent_free True [(4112, 48, False), (4160, 48, True), (4208, 928, True)]"
    by simp
  note w = release_and_allocate_keep_blocks_coalesced [OF heap_three_consistent cm i2,
      of "[(4112, 48, False)]" 4160 48 "[(4208, 928, True)]" 2 2000]
  have nm: "\<not> int_negative (growth (request 2000) heap_three)"
    by (simp add: size_defs heap_three_def)
  from w nm have first: "(\<exists>s'. mm_free 4168 heap_three = Inr s'
      \<and> consistent s' [(4112, 96, False), (4208, 928, True)] [4112]
      \<and> complete [(4112, 96, False), (4208, 928, True)] [4112]
      \<and> no_adjacent_free True [(4112, 96, False), (4208, 928, True)])
   \<and> (\<exists>p s' bs' L'. mm_malloc 2 2000 heap_three = Inr (p, s')
      \<and> consistent s' bs' L' \<and> complete bs' L' \<and> no_adjacent_free True bs')"
    by (simp add: merged_def merged_list_def prev_blk_def next_blk_def payload_def WORD_SIZE_def)
  have cm2: "complete [(4112, 48, True), (4160, 976, False)] [4160]" by (simp add: complete_def)
  have i22: "no_adjacent_free True [(4112, 48, True), (4160, 976 :: size_t, False)]" by simp
  note v = release_and_allocate_keep_blocks_coalesced [OF heap_split_consistent cm2 i22,
      THEN conjunct2, THEN conjunct2, of 2000]
  have h: "\<not> int_negative 2000
      \<and> unat (mem_brk heap_split) + unat (extension 2000) \<le> unat (mem_max_addr heap_split)
      \<and> \<not> last_allocated True [(4112, 48, True), (4160, 976 :: size_t, False)]"
    by (simp add: size_defs heap_split_def last_allocated_def)
  have e: "epilogue heap_split = 5136" "extension 2000 = 2000"
    by (simp_all add: size_defs heap_split_def)
  from v h have "\<exists>s'. mm_extend_heap 2000 heap_split = Inr (5136, s')
      \<and> consistent s' [(4112, 48, True), (4160, 976, False), (5136, 2000, False)] [5136, 4160]
      \<and> \<not> no_adjacent_free True [(4112, 48, True), (4160, 976, False), (5136, 2000, False)]"
    unfolding e by simp
  with first show ?thesis by blast
qed

text \<open>
  In \<open>heap_split\<close> no two adjacent blocks are both free and the last block, at 4160, is
  free. \<^verbatim>\<open>mm_extend_heap(2000)\<close> returns the new free block at 5136, the block right after
  it: two adjacent free blocks. \<^verbatim>\<open>mm_extend_heap\<close> does not call \<^verbatim>\<open>mm_coalesce\<close>.
\<close>

theorem extend_heap_leaves_adjacent_free_blocks:
  "consistent heap_split [(4112, 48, True), (4160, 976, False)] [4160]
   \<and> no_adjacent_free True [(4112, 48, True), (4160, 976, False)]
   \<and> mm_extend_heap 2000 heap_split = Inr (5136, heap_extended)
   \<and> block_allocated heap_extended 4160 = Inr False
   \<and> block_next heap_extended 4160 = Inr 5136
   \<and> block_allocated heap_extended 5136 = Inr False"
proof -
  have "mm_extend_heap 2000 heap_split = Inr (5136, heap_extended)"
    by (simp add: model_defs heap_split_def heap_extended_def fun_eq_iff)
  moreover have "block_allocated heap_extended 4160 = Inr False
   \<and> block_next heap_extended 4160 = Inr 5136
   \<and> block_allocated heap_extended 5136 = Inr False"
    by (simp add: model_defs heap_extended_def)
  ultimately show ?thesis using heap_split_consistent by simp
qed

text \<open>
  C4 (the code departs from the claim). \<^verbatim>\<open>mm_malloc\<close> tests the size it is given with
  \<^verbatim>\<open>(int) size < 0\<close> and returns the null pointer for a size from 2147483648 on; the block size
  it then computes, the size rounded up plus the two tags, is not tested. For the sizes
  2147483625 to 2147483647 that block size is 2147483648 or more, and when no block of the
  free list fits \<^verbatim>\<open>mm_malloc\<close> passes it to \<^verbatim>\<open>mm_extend_heap\<close>, whose
  \<^verbatim>\<open>assert((int) size >= 0)\<close> stops the program: the heap is not extended and the request
  is not served, nor is the null pointer returned. On the fresh heap: 2147483647 and
  2147483625 end in the assertion, while one byte less (for which \<^verbatim>\<open>mem_sbrk\<close> has no room
  here) and 2147483648 return the null pointer.
\<close>

theorem malloc_aborts_just_below_int_max:
  "\<not> int_negative 2147483647
   \<and> request 2147483647 = 2147483664
   \<and> int_negative (growth (request 2147483647) heap_fresh)
   \<and> first_fit (request 2147483647) [] [] = None
   \<and> mm_malloc 1 2147483647 heap_fresh = Inl AssertFailed
   \<and> mm_malloc 1 2147483625 heap_fresh = Inl AssertFailed
   \<and> mm_malloc 1 2147483624 heap_fresh = Inr (NULL, heap_fresh)
   \<and> mm_malloc 1 2147483648 heap_fresh = Inr (NULL, heap_fresh)"
  by (simp add: model_defs size_defs heap_fresh_def)

text \<open>
  What \<^verbatim>\<open>mm_malloc\<close> does on a consistent heap for a size that is not negative as an
  \<^verbatim>\<open>int\<close>, all outcomes: it returns the payload of the first block of the free list, in
  the order of the links from the anchor, whose size is at least the required block size,
  and the heap does not grow. When no block of the list is large enough (or the list is
  empty): the assertion of \<^verbatim>\<open>mm_extend_heap\<close> when the size of the extension is negative as
  an \<^verbatim>\<open>int\<close>; else, when \<^verbatim>\<open>mem_sbrk\<close> has room, the break and the Epilogue move up by exactly
  \<^verbatim>\<open>max(block_size_req, _chunksize)\<close>, once, and the payload returned is that of the new
  block, at the place of the old Epilogue, allocated and at least as large as required;
  else the null pointer.
\<close>

theorem malloc_first_fit_or_one_extension:
  assumes c: "consistent s bs L" and nneg: "\<not> int_negative sz0" and fuel: "length L < fuel"
    and ch: "8 dvd unat (chunksize s)"
  shows "case first_fit (request sz0) bs L of
           Some x \<Rightarrow>
             (\<exists>s' r. mm_malloc fuel sz0 s = Inr (payload x, s')
                \<and> block_allocated s' x = Inr True \<and> block_size s' x = Inr r \<and> request sz0 \<le> r
                \<and> mem_brk s' = mem_brk s \<and> epilogue s' = epilogue s)
         | None \<Rightarrow>
             if int_negative (growth (request sz0) s) then mm_malloc fuel sz0 s = Inl AssertFailed
             else if unat (mem_brk s) + unat (growth (request sz0) s) \<le> unat (mem_max_addr s)
             then (\<exists>s' r. mm_malloc fuel sz0 s = Inr (payload (epilogue s), s')
                \<and> block_allocated s' (epilogue s) = Inr True
                \<and> block_size s' (epilogue s) = Inr r \<and> request sz0 \<le> r
                \<and> mem_brk s' = mem_brk s + growth (request sz0) s
                \<and> epilogue s' = epilogue s + growth (request sz0) s)
             else mm_malloc fuel sz0 s = Inr (NULL, s)"
proof (cases "first_fit (request sz0) bs L")
  case (Some x)
  with malloc_block [OF c nneg fuel refl refl refl] show ?thesis by (auto simp: frame_def)
next
  case None
  show ?thesis
  proof (cases "int_negative (growth (request sz0) s)")
    case True
    with malloc_block [OF c nneg fuel refl refl refl] None show ?thesis by simp
  next
    case False
    note eg = extension_growth [OF nneg ch False]
    from malloc_block [OF c nneg fuel refl refl refl] None False show ?thesis
      unfolding eg by (auto simp: grown_def)
  qed
qed

text \<open>
  On \<open>heap_three\<close>, whose free list holds one block of 48 bytes: a request of 32 bytes
  takes it; a request of 2000 bytes, more than the chunk size, extends the heap by 2016
  bytes.
\<close>

theorem malloc_first_fit_or_one_extension_witness:
  "(\<exists>s' r. mm_malloc 2 32 heap_three = Inr (4120, s')
      \<and> block_allocated s' 4112 = Inr True \<and> block_size s' 4112 = Inr r \<and> 48 \<le> r
      \<and> mem_brk s' = 5152 \<and> epilogue s' = 5136)
   \<and> (\<exists>s' r. mm_malloc 2 2000 heap_three = Inr (5144, s')
      \<and> block_allocated s' 5136 = Inr True \<and> block_size s' 5136 = Inr r \<and> 2016 \<le> r
      \<and> mem_brk s' = 5152 + 2016 \<and> epilogue s' = 5136 + 2016)"
proof -
  have n1: "\<not> int_negative 32" and n2: "\<not> int_negative 2000" by (simp_all add: int_negative_def)
  have ch: "8 dvd unat (chunksize heap_three)" by (simp add: heap_three_def)
  have l: "length [4112 :: addr] < 2" by simp
  from malloc_first_fit_or_one_extension [OF heap_three_consistent n1 l ch]
    malloc_first_fit_or_one_extension [OF heap_three_consistent n2 l ch]
  show ?thesis by (simp add: size_defs heap_three_def)
qed

text \<open>
  C5. When \<^verbatim>\<open>mm_malloc\<close> places a request in its candidate \<open>x\<close> of size \<open>sz\<close> (the first fit
  of the free list, or the block of the extension): if \<open>sz\<close> exceeds the required block
  size by at least \<^verbatim>\<open>8 * MINBLOCKSIZE\<close>, the heap it leaves has an allocated block of
  exactly the required size at \<open>x\<close>, followed by a free block with the rest, and the free
  list is the old one with \<open>x\<close> removed and the remainder put at its head; otherwise the
  block at \<open>x\<close> is allocated whole and only removed from the list.
\<close>

theorem malloc_splits_iff_large_remainder:
  assumes c: "consistent s bs L" and nneg: "\<not> int_negative sz0" and fuel: "length L < fuel"
    and cand: "candidate sz0 s bs L = Some (x, xs @ (x, sz, False) # ys, L0)"
  shows "\<exists>s'. mm_malloc fuel sz0 s = Inr (payload x, s')
     \<and> (if 8 * MINBLOCKSIZE \<le> sz - request sz0
        then consistent s' (xs @ (x, request sz0, True) # (x + request sz0, sz - request sz0, False) # ys)
               ((x + request sz0) # remove1 x L0)
        else consistent s' (xs @ (x, sz, True) # ys) (remove1 x L0))"
  by (rule placement [OF c nneg fuel cand])

text \<open>
  A request of 32 bytes: on \<open>heap_three\<close> the free block of 48 bytes is taken whole; on
  \<open>heap_split\<close> the free block of 976 bytes is split; on the fresh heap the block of the
  extension, 1024 bytes, is split.
\<close>

theorem malloc_splits_iff_large_remainder_witness:
  "(\<exists>s'. mm_malloc 2 32 heap_three = Inr (4120, s')
      \<and> consistent s' [(4112, 48, True), (4160, 48, True), (4208, 928, True)] [])
   \<and> (\<exists>s'. mm_malloc 2 32 heap_split = Inr (4168, s')
      \<and> consistent s' [(4112, 48, True), (4160, 48, True), (4208, 928, False)] [4208])
   \<and> (\<exists>s'. mm_malloc 1 32 heap_fresh = Inr (4120, s')
      \<and> consistent s' [(4112, 48, True), (4160, 976, False)] [4160])"
proof -
  have n: "\<not> int_negative 32" by (simp add: int_negative_def)
  have c1: "candidate 32 heap_three [(4112, 48, False), (4160, 48, True), (4208, 928, True)] [4112]
      = Some (4112, [] @ (4112, 48, False) # [(4160, 48, True), (4208, 928, True)], [4112])"
    by (simp add: size_defs)
  have c2: "candidate 32 heap_split [(4112, 48, True), (4160, 976, False)] [4160]
      = Some (4160, [(4112, 48, True)] @ (4160, 976, False) # [], [4160])"
    by (simp add: size_defs)
  have c3: "candidate 32 heap_fresh [] [] = Some (4112, [] @ (4112, 1024, False) # [], [4112])"
    by (simp add: size_defs heap_fresh_def)
  from malloc_splits_iff_large_remainder [OF heap_three_consistent n _ c1, of 2]
    malloc_splits_iff_large_remainder [OF heap_split_consistent n _ c2, of 2]
    malloc_splits_iff_large_remainder [OF heap_fresh_consistent n _ c3, of 1]
  show ?thesis by (simp add: size_defs)
qed

text \<open>
  C6. In a consistent heap, for a free block \<open>x\<close> of the free list, when every other free
  block is on the list too, \<^verbatim>\<open>mm_coalesce\<close> returns and leaves a consistent heap whose
  blocks are \<open>merged\<close>: the block after \<open>x\<close>, if free, is gone and its size added to
  that of \<open>x\<close>; the block before \<open>x\<close>, if free, has taken the size of \<open>x\<close> and stands for
  both. The free list is the old one without \<open>x\<close> and without the free neighbours, with
  the one resulting block at its head (a consistent list has no block twice).
\<close>

theorem coalesce_merges_free_neighbours:
  assumes c: "consistent s (xs @ (x, sz, False) # ys) L" and xl: "x \<in> set L"
    and li: "listed x (xs @ (x, sz, False) # ys) L"
  shows "\<exists>s'. mm_coalesce x s = Inr s'
      \<and> consistent s' (merged (prev_blk s xs) xs x sz ys (next_blk s ys))
          (merged_list (prev_blk s xs) x (next_blk s ys) L)
      \<and> frame s s'"
proof -
  obtain y sy ay where n: "next_blk s ys = (y, sy, ay)" by (cases "next_blk s ys") simp
  obtain p sp ap where pv: "prev_blk s xs = (p, sp, ap)" by (cases "prev_blk s xs") simp
  from coalesce_ok [OF c xl li n pv] show ?thesis
    unfolding n pv merged_def merged_list_def prod.case by blast
qed

text \<open>
  On \<open>heap_marked\<close> the block at 4160 is merged into the free block before it; on
  \<open>heap_extended\<close> the block at 5136 is merged into the free block before it; on
  \<open>heap_split_marked\<close> the block at 4112 takes in the free block after it.
\<close>

theorem coalesce_merges_free_neighbours_witness:
  "(\<exists>s'. mm_coalesce 4160 heap_marked = Inr s'
      \<and> consistent s' [(4112, 96, False), (4208, 928, True)] [4112]
      \<and> frame heap_marked s')
   \<and> (\<exists>s'. mm_coalesce 5136 heap_extended = Inr s'
      \<and> consistent s' [(4112, 48, True), (4160, 2976, False)] [4160]
      \<and> frame heap_extended s')
   \<and> (\<exists>s'. mm_coalesce 4112 heap_split_marked = Inr s'
      \<and> consistent s' [(4112, 1024, False)] [4112]
      \<and> frame heap_split_marked s')"
proof -
  have l1: "listed 4160 ([(4112, 48, False)] @ (4160, 48, False) # [(4208, 928, True)]) [4160, 4112]"
    by (simp add: listed_def)
  have l2: "listed 5136 ([(4112, 48, True), (4160, 976, False)] @ (5136, 2000, False) # []) [5136, 4160]"
    by (simp add: listed_def)
  have c1: "consistent heap_marked ([(4112, 48, False)] @ (4160, 48, False) # [(4208, 928, True)])
      [4160, 4112]" using heap_marked_consistent by simp
  have c2: "consistent heap_extended ([(4112, 48, True), (4160, 976, False)] @ (5136, 2000, False) # [])
      [5136, 4160]" using heap_extended_consistent by simp
  have l3: "listed 4112 ([] @ (4112, 48, False) # [(4160, 976, False)]) [4112, 4160]"
    by (simp add: listed_def)
  have c3: "consistent heap_split_marked ([] @ (4112, 48, False) # [(4160, 976, False)])
      [4112, 4160]" using heap_split_marked_consistent by simp
  have p3: "prologue heap_split_marked = 4096" by (simp add: heap_split_marked_def)
  note w1 = coalesce_merges_free_neighbours [OF c1 _ l1]
    and w2 = coalesce_merges_free_neighbours [OF c2 _ l2]
    and w3 = coalesce_merges_free_neighbours [OF c3 _ l3]
  have e: "epilogue heap_extended = 7136" by (simp add: heap_extended_def)
  from w1 w2 w3 show ?thesis
    by (simp add: merged_def merged_list_def prev_blk_def next_blk_def e p3)
qed

text \<open>
  C7. When no block of the free list is large enough and \<^verbatim>\<open>mem_sbrk\<close> cannot give the
  bytes of the extension, \<^verbatim>\<open>mm_extend_heap\<close> returns \<open>-1\<close>, \<^verbatim>\<open>mm_malloc\<close> returns the null
  pointer, and so does the last resort of \<^verbatim>\<open>mm_realloc\<close>; the state each of them returns is
  the state it was called in.
\<close>

theorem growth_failure_returns_null_unchanged:
  assumes c: "consistent s bs L" and nneg: "\<not> int_negative sz0" and fuel: "length L < fuel"
    and nofit: "first_fit (request sz0) bs L = None"
    and nm: "\<not> int_negative (growth (request sz0) s)"
    and full: "\<not> unat (mem_brk s) + unat (extension (growth (request sz0) s)) \<le> unat (mem_max_addr s)"
  shows "mm_extend_heap (growth (request sz0) s) s = Inr (- 1, s)
      \<and> mm_malloc fuel sz0 s = Inr (NULL, s)
      \<and> realloc_fallback fuel ptr sz0 cpy_size s = Inr (NULL, s)"
proof -
  have e: "mm_extend_heap (growth (request sz0) s) s = Inr (- 1, s)"
    by (rule extend_fails [OF nm full])
  from malloc_spec [OF c nneg fuel refl refl refl] nofit nm full
  have m: "mm_malloc fuel sz0 s = Inr (NULL, s)" by simp
  then have "realloc_fallback fuel ptr sz0 cpy_size s = Inr (NULL, s)"
    by (simp add: realloc_fallback_def)
  with e m show ?thesis by simp
qed

text \<open>On \<open>heap_full\<close> a request of 100 bytes asks for a chunk of 1024 bytes and fails.\<close>

theorem growth_failure_returns_null_unchanged_witness:
  "mm_extend_heap 1024 heap_full = Inr (- 1, heap_full)
   \<and> mm_malloc 1 100 heap_full = Inr (NULL, heap_full)
   \<and> realloc_fallback 1 4120 100 32 heap_full = Inr (NULL, heap_full)"
proof -
  have n: "\<not> int_negative 100" by (simp add: int_negative_def)
  have nf: "first_fit (request 100) [] [] = None" by (simp add: first_fit_def)
  have nm: "\<not> int_negative (growth (request 100) heap_full)"
    by (simp add: size_defs heap_full_def)
  have full: "\<not> unat (mem_brk heap_full) + unat (extension (growth (request 100) heap_full))
      \<le> unat (mem_max_addr heap_full)"
    by (simp add: size_defs heap_full_def)
  from growth_failure_returns_null_unchanged [OF heap_full_consistent n _ nf nm full, of 1 4120 32]
  show ?thesis by (simp add: size_defs heap_full_def)
qed

text \<open>
  C8 (the code departs from the claim). In \<open>heap_overrun\<close> the block at 4112 has a header
  of size 1024 and a footer of size 0, and the free list is empty. The checker returns 0
  at its first test, before it looks at any block.
\<close>

theorem check_heap_empty_free_list_skips_blocks:
  "mm_check_heap 1 heap_overrun = Inr 0
   \<and> block_size heap_overrun 4112 = Inr 1024
   \<and> block_end_size heap_overrun 4112 = Inr 0"
  by (simp add: model_defs heap_overrun_def)

text \<open>
  C9 (amended). In a consistent heap, for the payload of an allocated block of size
  \<open>bsz\<close> and a size that is not zero, not negative as an \<^verbatim>\<open>int\<close> and at most the payload
  size \<open>bsz - 16\<close>, \<^verbatim>\<open>mm_realloc\<close> returns the same pointer and the same state. The claim as
  written also covers the size zero, where it fails: \<^verbatim>\<open>mm_realloc\<close> with size zero is
  \<^verbatim>\<open>mm_free\<close> followed by the return of the null pointer (second part of the theorem; on
  \<open>heap_three\<close> further down).
\<close>

theorem realloc_within_block_returns_same_pointer:
  assumes c: "consistent s bs L" and b: "(x, bsz, True) \<in> set bs"
    and pos: "sz \<noteq> 0" and nneg: "\<not> int_negative sz" and fit: "unat sz + 16 \<le> unat bsz"
  shows "mm_realloc fuel (payload x) sz s = Inr (payload x, s)
     \<and> mm_realloc fuel (payload x) 0 s = rbind (mm_free (payload x) s) (\<lambda>s'. Inr (NULL, s'))"
proof -
  have "\<not> int_negative 0" by (simp add: int_negative_def)
  with payload_facts(1) [OF c b]
  have "mm_realloc fuel (payload x) 0 s = rbind (mm_free (payload x) s) (\<lambda>s'. Inr (NULL, s'))"
    by (simp add: mm_realloc_def)
  with realloc_fits [OF c b pos nneg fit] show ?thesis by simp
qed

text \<open>On \<open>heap_three\<close>, for the block of 48 bytes at 4160: sizes 16, 32 and 0.\<close>

theorem realloc_within_block_returns_same_pointer_witness:
  "mm_realloc 1 4168 16 heap_three = Inr (4168, heap_three)
   \<and> mm_realloc 1 4168 32 heap_three = Inr (4168, heap_three)
   \<and> mm_realloc 1 4168 0 heap_three = rbind (mm_free 4168 heap_three) (\<lambda>s'. Inr (NULL, s'))"
proof -
  have b: "(4160, 48, True) \<in> set [(4112, 48, False), (4160, 48, True), (4208, 928 :: size_t, True)]"
    by simp
  have n: "\<not> int_negative 16" "\<not> int_negative 32" by (simp_all add: int_negative_def)
  from realloc_within_block_returns_same_pointer [OF heap_three_consistent b _ n(1), of 1]
    realloc_within_block_returns_same_pointer [OF heap_three_consistent b _ n(2), of 1]
  show ?thesis by (simp add: payload_def WORD_SIZE_def)
qed

text \<open>
  The size 0 is at most the payload size of the allocated block at 4160 of \<open>heap_three\<close>,
  and \<^verbatim>\<open>mm_realloc(4168, 0)\<close> returns the null pointer, having released the block and merged
  it with the free block before it.
\<close>

theorem realloc_zero_releases_the_block:
  "block_allocated heap_three 4160 = Inr True
   \<and> block_size heap_three 4160 = Inr 48
   \<and> mm_realloc 1 4168 0 heap_three = Inr (NULL, heap_merged)
   \<and> block_allocated heap_merged 4112 = Inr False
   \<and> block_size heap_merged 4112 = Inr 96"
proof -
  have "mm_realloc 1 4168 0 heap_three = Inr (NULL, heap_merged)"
    by (simp add: model_defs heap_three_def heap_merged_def fun_eq_iff)
  moreover have "block_allocated heap_three 4160 = Inr True \<and> block_size heap_three 4160 = Inr 48"
    by (simp add: model_defs heap_three_def)
  moreover have "block_allocated heap_merged 4112 = Inr False \<and> block_size heap_merged 4112 = Inr 96"
    by (simp add: model_defs heap_merged_def)
  ultimately show ?thesis by simp
qed

text \<open>
  C10 (amended). \<^verbatim>\<open>mm_malloc(0)\<close> is \<^verbatim>\<open>mm_malloc(MINBLOCKSIZE)\<close>, and its required block size
  is \<^verbatim>\<open>MINBLOCKSIZE + TAGS_SIZE\<close>. In a consistent heap it returns a pointer that is not
  null, to an allocated block of at least that size, when a block of the free list fits
  or \<^verbatim>\<open>mem_sbrk\<close> has room for the extension; when neither holds it returns the null
  pointer and the state unchanged. A size that is negative as an \<^verbatim>\<open>int\<close> is answered with
  the null pointer and the state unchanged. The same three outcomes hold for every size
  that is not negative as an \<^verbatim>\<open>int\<close>, as long as the size of the extension is not negative
  as an \<^verbatim>\<open>int\<close> either (last part of the theorem). The claim as written says that
  \<^verbatim>\<open>mm_malloc(0)\<close> never fails, which \<open>heap_full\<close> refutes further down.
\<close>

theorem malloc_zero_is_padded_to_minimum:
  assumes c: "consistent s bs L" and fuel: "length L < fuel"
    and nm: "\<not> int_negative (growth (request 0) s)" and neg: "int_negative big"
  shows "mm_malloc fuel big s = Inr (NULL, s)
     \<and> mm_malloc fuel 0 s = mm_malloc fuel MINBLOCKSIZE s
     \<and> request 0 = MINBLOCKSIZE + TAGS_SIZE
     \<and> (case first_fit (request 0) bs L of
          Some x \<Rightarrow>
            (\<exists>s' r. mm_malloc fuel 0 s = Inr (payload x, s') \<and> payload x \<noteq> NULL
               \<and> block_allocated s' x = Inr True \<and> block_size s' x = Inr r
               \<and> MINBLOCKSIZE + TAGS_SIZE \<le> r)
        | None \<Rightarrow>
            if unat (mem_brk s) + unat (extension (growth (request 0) s)) \<le> unat (mem_max_addr s)
            then (\<exists>s' r. mm_malloc fuel 0 s = Inr (payload (epilogue s), s')
               \<and> payload (epilogue s) \<noteq> NULL
               \<and> block_allocated s' (epilogue s) = Inr True \<and> block_size s' (epilogue s) = Inr r
               \<and> MINBLOCKSIZE + TAGS_SIZE \<le> r)
            else mm_malloc fuel 0 s = Inr (NULL, s))
     \<and> (\<not> int_negative sz0 \<and> \<not> int_negative (growth (request sz0) s) \<longrightarrow>
         (case first_fit (request sz0) bs L of
            Some x \<Rightarrow>
              (\<exists>s' r. mm_malloc fuel sz0 s = Inr (payload x, s') \<and> payload x \<noteq> NULL
                 \<and> block_allocated s' x = Inr True \<and> block_size s' x = Inr r
                 \<and> request sz0 \<le> r)
          | None \<Rightarrow>
              if unat (mem_brk s) + unat (extension (growth (request sz0) s))
                   \<le> unat (mem_max_addr s)
              then (\<exists>s' r. mm_malloc fuel sz0 s = Inr (payload (epilogue s), s')
                 \<and> payload (epilogue s) \<noteq> NULL
                 \<and> block_allocated s' (epilogue s) = Inr True
                 \<and> block_size s' (epilogue s) = Inr r \<and> request sz0 \<le> r)
              else mm_malloc fuel sz0 s = Inr (NULL, s)))"
proof -
  have general: "case first_fit (request sz0) bs L of
            Some x \<Rightarrow>
              (\<exists>s' r. mm_malloc fuel sz0 s = Inr (payload x, s') \<and> payload x \<noteq> NULL
                 \<and> block_allocated s' x = Inr True \<and> block_size s' x = Inr r
                 \<and> request sz0 \<le> r)
          | None \<Rightarrow>
              if unat (mem_brk s) + unat (extension (growth (request sz0) s))
                   \<le> unat (mem_max_addr s)
              then (\<exists>s' r. mm_malloc fuel sz0 s = Inr (payload (epilogue s), s')
                 \<and> payload (epilogue s) \<noteq> NULL
                 \<and> block_allocated s' (epilogue s) = Inr True
                 \<and> block_size s' (epilogue s) = Inr r \<and> request sz0 \<le> r)
              else mm_malloc fuel sz0 s = Inr (NULL, s)"
    if nn: "\<not> int_negative sz0" and nmm: "\<not> int_negative (growth (request sz0) s)"
  proof (cases "first_fit (request sz0) bs L")
    case (Some x)
    with malloc_block [OF c nn fuel refl refl refl] show ?thesis by auto
  next
    case None
    with malloc_block [OF c nn fuel refl refl refl] nmm show ?thesis by (auto split: if_splits)
  qed
  have r0: "request 0 = MINBLOCKSIZE + TAGS_SIZE"
    by (simp add: request_def align_def MINBLOCKSIZE_def TAGS_SIZE_def WORD_SIZE_def)
  have n0: "\<not> int_negative 0" by (simp add: int_negative_def)
  note mb = malloc_block [OF c n0 fuel refl refl refl]
  have "case first_fit (request 0) bs L of
          Some x \<Rightarrow>
            (\<exists>s' r. mm_malloc fuel 0 s = Inr (payload x, s') \<and> payload x \<noteq> NULL
               \<and> block_allocated s' x = Inr True \<and> block_size s' x = Inr r
               \<and> request 0 \<le> r)
        | None \<Rightarrow>
            if unat (mem_brk s) + unat (extension (growth (request 0) s)) \<le> unat (mem_max_addr s)
            then (\<exists>s' r. mm_malloc fuel 0 s = Inr (payload (epilogue s), s')
               \<and> payload (epilogue s) \<noteq> NULL
               \<and> block_allocated s' (epilogue s) = Inr True \<and> block_size s' (epilogue s) = Inr r
               \<and> request 0 \<le> r)
            else mm_malloc fuel 0 s = Inr (NULL, s)"
  proof (cases "first_fit (request 0) bs L")
    case (Some x)
    with mb show ?thesis by auto
  next
    case None
    with mb nm show ?thesis by (auto split: if_splits)
  qed
  then have zero: "mm_malloc fuel big s = Inr (NULL, s)
     \<and> mm_malloc fuel 0 s = mm_malloc fuel MINBLOCKSIZE s
     \<and> request 0 = MINBLOCKSIZE + TAGS_SIZE
     \<and> (case first_fit (request 0) bs L of
          Some x \<Rightarrow>
            (\<exists>s' r. mm_malloc fuel 0 s = Inr (payload x, s') \<and> payload x \<noteq> NULL
               \<and> block_allocated s' x = Inr True \<and> block_size s' x = Inr r
               \<and> MINBLOCKSIZE + TAGS_SIZE \<le> r)
        | None \<Rightarrow>
            if unat (mem_brk s) + unat (extension (growth (request 0) s)) \<le> unat (mem_max_addr s)
            then (\<exists>s' r. mm_malloc fuel 0 s = Inr (payload (epilogue s), s')
               \<and> payload (epilogue s) \<noteq> NULL
               \<and> block_allocated s' (epilogue s) = Inr True \<and> block_size s' (epilogue s) = Inr r
               \<and> MINBLOCKSIZE + TAGS_SIZE \<le> r)
            else mm_malloc fuel 0 s = Inr (NULL, s))"
    unfolding r0 [symmetric]
    using malloc_negative [OF neg] malloc_zero_padded r0 by simp
  from zero general show ?thesis by blast
qed

text \<open>
  On the fresh heap, whose free list is empty: the heap is extended for the size 0, and
  \<^verbatim>\<open>mem_sbrk\<close> has no room for 200000 bytes.
\<close>

theorem malloc_zero_is_padded_to_minimum_witness:
  "mm_malloc 1 2147483648 heap_fresh = Inr (NULL, heap_fresh)
   \<and> mm_malloc 1 0 heap_fresh = mm_malloc 1 32 heap_fresh
   \<and> (\<exists>s' r. mm_malloc 1 0 heap_fresh = Inr (4120, s')
        \<and> block_allocated s' 4112 = Inr True \<and> block_size s' 4112 = Inr r \<and> 48 \<le> r)
   \<and> mm_malloc 1 200000 heap_fresh = Inr (NULL, heap_fresh)"
proof -
  have nm: "\<not> int_negative (growth (request 0) heap_fresh)"
    by (simp add: size_defs heap_fresh_def)
  have neg: "int_negative 2147483648" by (simp add: int_negative_def)
  have room: "unat (mem_brk heap_fresh) + unat (extension (growth (request 0) heap_fresh))
      \<le> unat (mem_max_addr heap_fresh)"
    by (simp add: size_defs heap_fresh_def)
  have ff: "first_fit (request 0) [] [] = None" by (simp add: first_fit_def)
  have e: "epilogue heap_fresh = 4112" by (simp add: heap_fresh_def)
  note w = malloc_zero_is_padded_to_minimum [OF heap_fresh_consistent _ nm neg, of 1 200000]
  have big: "\<not> int_negative 200000 \<and> \<not> int_negative (growth (request 200000) heap_fresh)"
    and noroom: "\<not> unat (mem_brk heap_fresh) + unat (extension (growth (request 200000) heap_fresh))
      \<le> unat (mem_max_addr heap_fresh)"
    and ff2: "first_fit (request 200000) [] [] = None"
    by (simp_all add: size_defs heap_fresh_def)
  from w [THEN conjunct2, THEN conjunct2, THEN conjunct2, THEN conjunct2] big
  have "mm_malloc 1 200000 heap_fresh = Inr (NULL, heap_fresh)"
    unfolding ff2 option.case if_not_P [OF noroom] by simp
  moreover
  from w have "mm_malloc 1 2147483648 heap_fresh = Inr (NULL, heap_fresh)" by simp
  moreover from w have "mm_malloc 1 0 heap_fresh = mm_malloc 1 32 heap_fresh"
    by (simp add: MINBLOCKSIZE_def WORD_SIZE_def)
  moreover from w [THEN conjunct2, THEN conjunct2, THEN conjunct2, THEN conjunct1]
  have "\<exists>s' r. mm_malloc 1 0 heap_fresh = Inr (4120, s')
        \<and> block_allocated s' 4112 = Inr True \<and> block_size s' 4112 = Inr r \<and> 48 \<le> r"
    unfolding ff option.case if_P [OF room] e
    by (auto simp: payload_def MINBLOCKSIZE_def TAGS_SIZE_def WORD_SIZE_def)
  ultimately show ?thesis by blast
qed

text \<open>
  On \<open>heap_full\<close> the free list is empty and \<^verbatim>\<open>mem_sbrk\<close> has no room: \<^verbatim>\<open>mm_malloc(0)\<close>
  returns the null pointer, and zero is not negative as an \<^verbatim>\<open>int\<close>.
\<close>

theorem malloc_zero_fails_when_heap_cannot_grow:
  "\<not> int_negative 0 \<and> mm_malloc 1 0 heap_full = Inr (NULL, heap_full)"
  by (simp add: model_defs heap_full_def)

end
